theory Spec2Isabelle
  imports Complex_Main "HOL-Library.Log_Nat"
begin

section \<open>Numbers\<close>

text \<open>
  The program is the single React component \<^verbatim>\<open>App\<close> of \<^verbatim>\<open>src/App.tsx\<close>. Its
  numbers are the binary64 numbers of JavaScript. A number is modelled by the real it
  denotes, and every \<^verbatim>\<open>+\<close>, \<^verbatim>\<open>-\<close>, \<^verbatim>\<open>*\<close> and \<^verbatim>\<open>/\<close> of the source rounds its exact
  result to the nearest binary64 number, ties to the even significand (\<open>round64\<close>).
  A decimal literal such as \<^verbatim>\<open>0.1\<close> denotes the binary64 number nearest to it. The
  infinities and \<^verbatim>\<open>NaN\<close> are not modelled: \<open>round64\<close> does not overflow, so the model
  describes the program as long as no result reaches \<open>2 ^ 1024\<close> in size.

  \<open>rne\<close> rounds a real to the nearest integer, a tie to the even one.
\<close>

definition rne :: "real \<Rightarrow> int" where
  "rne q =
     (let f = \<lfloor>q\<rfloor>; d = q - of_int f
      in if d < 1 / 2 then f else if 1 / 2 < d then f + 1 else if even f then f else f + 1)"

text \<open>
  For \<open>x > 0\<close>, \<open>ilog2 x\<close> is the integer \<open>k\<close> with \<open>2 ^ k \<le> x < 2 ^ (k + 1)\<close> (lemmas
  \<open>ilog2_bounds\<close> and \<open>ilog2_unique\<close> below), computed from the number of binary digits
  of an integer.
\<close>

definition ilog2 :: "real \<Rightarrow> int" where
  "ilog2 x =
     (if 1 \<le> x then int (floorlog 2 (nat \<lfloor>x\<rfloor>)) - 1
      else - int (floorlog 2 (nat \<lceil>1 / x\<rceil> - 1)))"

text \<open>
  The binary64 numbers next to \<open>x\<close> are multiples of \<open>2 ^ ulpExponent x\<close>: a significand
  of 53 bits, and the exponent \<open>- 1022\<close> for the subnormal numbers.
\<close>

definition ulpExponent :: "real \<Rightarrow> int" where
  "ulpExponent x = max (ilog2 \<bar>x\<bar>) (- 1022) - 52"

definition round64 :: "real \<Rightarrow> real" where
  "round64 x =
     (if x = 0 then 0
      else 2 powi ulpExponent x * of_int (rne (x / 2 powi ulpExponent x)))"

text \<open>The reals that are binary64 numbers.\<close>

definition isNumber :: "real \<Rightarrow> bool" where
  "isNumber x \<longleftrightarrow> round64 x = x"

text \<open>The arithmetic operators of the source.\<close>

definition js_add :: "real \<Rightarrow> real \<Rightarrow> real" where
  "js_add x y = round64 (x + y)"

definition js_sub :: "real \<Rightarrow> real \<Rightarrow> real" where
  "js_sub x y = round64 (x - y)"

definition js_mul :: "real \<Rightarrow> real \<Rightarrow> real" where
  "js_mul x y = round64 (x * y)"

definition js_div :: "real \<Rightarrow> real \<Rightarrow> real" where
  "js_div x y = round64 (x / y)"

text \<open>
  The remainder operator \<^verbatim>\<open>%\<close>: the quotient is truncated towards zero, so the result
  has the sign of the dividend. The remainder of two binary64 numbers is a binary64
  number, so \<^verbatim>\<open>%\<close> does not round. The program only divides by 360.
\<close>

definition js_trunc :: "real \<Rightarrow> int" where
  "js_trunc x = (if 0 \<le> x then \<lfloor>x\<rfloor> else \<lceil>x\<rceil>)"

definition js_rem :: "real \<Rightarrow> real \<Rightarrow> real" where
  "js_rem x y = x - y * of_int (js_trunc (x / y))"

section \<open>The coffee wheel: data model\<close>

text \<open>
  \<^verbatim>\<open>interface Person { id: string; name: string; wins: number; }\<close>
  The field \<^verbatim>\<open>id\<close> is called \<open>pid\<close> here, since \<open>id\<close> is the identity
  function of HOL. Strings are lists of code units below 256.
\<close>

record person =
  pid :: string
  name :: string
  wins :: real

text \<open>The objects built by \<^verbatim>\<open>{ ...person, weight }\<close> in \<^verbatim>\<open>calculateWeightedSegments\<close>.\<close>

record weightedPerson = person +
  weight :: real

text \<open>
  The objects built by \<^verbatim>\<open>{ ...person, startAngle, endAngle, segmentAngle }\<close> in
  \<^verbatim>\<open>getSegmentAngles\<close>.
\<close>

record segment = weightedPerson +
  startAngle :: real
  endAngle :: real
  segmentAngle :: real

text \<open>
  The component state: the five \<^verbatim>\<open>useState\<close> cells, and the timeouts that
  \<^verbatim>\<open>spinWheel\<close> has scheduled and that have not fired yet. Each pending timeout
  holds the \<^verbatim>\<open>selectedWinner\<close> its closure captured; all have the same delay,
  so they fire in the order they were scheduled.
\<close>

record app_state =
  names :: "person list"
  newName :: string
  isSpinning :: bool
  winner :: "string option"
  rotation :: real
  timers :: "segment list"

definition initial_state :: app_state where
  "initial_state =
     \<lparr>names = [], newName = [], isSpinning = False, winner = None, rotation = 0, timers = []\<rparr>"

section \<open>Weights and the segment layout\<close>

text \<open>
  \<^verbatim>\<open>Math.max(0.1, baseWeight - person.wins * penaltyPerWin)\<close> with
  \<^verbatim>\<open>baseWeight = 1\<close> and \<^verbatim>\<open>penaltyPerWin = 0.2\<close>.
\<close>

definition baseWeight :: real where
  "baseWeight = 1"

definition penaltyPerWin :: real where
  "penaltyPerWin = round64 (2 / 10)"

definition weightOf :: "real \<Rightarrow> real" where
  "weightOf w = max (round64 (1 / 10)) (js_sub baseWeight (js_mul w penaltyPerWin))"

definition addWeight :: "person \<Rightarrow> weightedPerson" where
  "addWeight p = \<lparr>pid = pid p, name = name p, wins = wins p, weight = weightOf (wins p)\<rparr>"

definition calculateWeightedSegments :: "person list \<Rightarrow> weightedPerson list" where
  "calculateWeightedSegments ns = map addWeight ns"

text \<open>\<^verbatim>\<open>weightedPeople.reduce((sum, person) => sum + person.weight, 0)\<close>\<close>

definition totalWeightOf :: "weightedPerson list \<Rightarrow> real" where
  "totalWeightOf ps = foldl (\<lambda>sum p. js_add sum (weight p)) 0 ps"

text \<open>
  The \<^verbatim>\<open>map\<close> of \<^verbatim>\<open>getSegmentAngles\<close>, with the mutable \<^verbatim>\<open>currentAngle\<close> as
  the second argument.
\<close>

fun layoutFrom :: "real \<Rightarrow> real \<Rightarrow> weightedPerson list \<Rightarrow> segment list" where
  "layoutFrom totalWeight currentAngle [] = []"
| "layoutFrom totalWeight currentAngle (p # ps) =
     (let segAngle = js_mul (js_div (weight p) totalWeight) 360;
          startA = currentAngle;
          endA = js_add currentAngle segAngle
      in \<lparr>pid = pid p, name = name p, wins = wins p, weight = weight p,
           startAngle = startA, endAngle = endA, segmentAngle = segAngle\<rparr>
         # layoutFrom totalWeight endA ps)"

definition getSegmentAngles :: "person list \<Rightarrow> segment list" where
  "getSegmentAngles ns =
     (let weightedPeople = calculateWeightedSegments ns;
          totalWeight = totalWeightOf weightedPeople
      in layoutFrom totalWeight 0 weightedPeople)"

section \<open>The spin\<close>

text \<open>
  \<^verbatim>\<open>baseRotation = 360 * 5\<close>, \<^verbatim>\<open>randomAngle = Math.random() * 360\<close> and
  \<^verbatim>\<open>totalRotation = baseRotation + randomAngle\<close>; the argument \<open>rnd\<close> is the value
  that \<^verbatim>\<open>Math.random()\<close> returned, a number in \<open>[0, 1)\<close>.
\<close>

definition baseRotation :: real where
  "baseRotation = js_mul 360 5"

definition randomAngle :: "real \<Rightarrow> real" where
  "randomAngle rnd = js_mul rnd 360"

definition totalRotation :: "real \<Rightarrow> real" where
  "totalRotation rnd = js_add baseRotation (randomAngle rnd)"

text \<open>\<^verbatim>\<open>finalRotation = (rotation + totalRotation) % 360\<close>\<close>

definition finalRotation :: "real \<Rightarrow> real \<Rightarrow> real" where
  "finalRotation rot rnd = js_rem (js_add rot (totalRotation rnd)) 360"

text \<open>\<^verbatim>\<open>segmentTopAngle = (360 - finalRotation) % 360\<close>\<close>

definition segmentTopAngle :: "real \<Rightarrow> real" where
  "segmentTopAngle fr = js_rem (js_sub 360 fr) 360"

text \<open>The test of the loop body.\<close>

definition atTop :: "real \<Rightarrow> segment \<Rightarrow> bool" where
  "atTop topAngle s \<longleftrightarrow> topAngle \<ge> startAngle s \<and> topAngle < endAngle s"

text \<open>
  The \<^verbatim>\<open>for\<close> loop over the segments, with the variable \<^verbatim>\<open>selectedWinner\<close> as
  the second argument: the first segment that passes the test ends the loop.
\<close>

fun scanSegments :: "real \<Rightarrow> segment \<Rightarrow> segment list \<Rightarrow> segment" where
  "scanSegments fr selectedWinner [] = selectedWinner"
| "scanSegments fr selectedWinner (s # ss) =
     (if atTop (segmentTopAngle fr) s then s else scanSegments fr selectedWinner ss)"

text \<open>
  \<^verbatim>\<open>let selectedWinner = segments[0]\<close> followed by the loop. On an empty array
  \<^verbatim>\<open>segments[0]\<close> is \<^verbatim>\<open>undefined\<close>, which is \<open>None\<close> here.
\<close>

definition selectWinner :: "segment list \<Rightarrow> real \<Rightarrow> segment option" where
  "selectWinner segments fr =
     (case segments of
        [] \<Rightarrow> None
      | s0 # _ \<Rightarrow> Some (scanSegments fr s0 segments))"

text \<open>
  \<^verbatim>\<open>spinWheel\<close>, up to the call of \<^verbatim>\<open>setTimeout\<close>. The branch \<open>None\<close> is never
  taken (lemma \<open>selectWinner_layout_defined\<close> below), since the roster is not empty
  there.
\<close>

definition spinWheel :: "app_state \<Rightarrow> real \<Rightarrow> app_state" where
  "spinWheel st rnd =
     (if length (names st) = 0 then st
      else
        (case selectWinner (getSegmentAngles (names st)) (finalRotation (rotation st) rnd) of
           None \<Rightarrow> st
         | Some selectedWinner \<Rightarrow>
             st\<lparr>isSpinning := True,
                winner := None,
                rotation := js_add (rotation st) (totalRotation rnd),
                timers := timers st @ [selectedWinner]\<rparr>))"

text \<open>The \<^verbatim>\<open>map\<close> inside the timeout's \<^verbatim>\<open>setNames\<close>.\<close>

definition incrementWins :: "segment \<Rightarrow> person list \<Rightarrow> person list" where
  "incrementWins selectedWinner prevNames =
     map (\<lambda>p. if pid p = pid selectedWinner then p\<lparr>wins := js_add (wins p) 1\<rparr> else p)
       prevNames"

text \<open>The callback of the oldest pending timeout fires.\<close>

definition spinCommit :: "app_state \<Rightarrow> app_state" where
  "spinCommit st =
     (case timers st of
        [] \<Rightarrow> st
      | selectedWinner # rest \<Rightarrow>
          st\<lparr>winner := Some (name selectedWinner),
             names := incrementWins selectedWinner (names st),
             isSpinning := False,
             timers := rest\<rparr>)"

text \<open>
  A click on the spin button: \<^verbatim>\<open>onClick={spinWheel}\<close> with
  \<^verbatim>\<open>disabled={names.length === 0 || isSpinning}\<close>; a disabled button delivers no click.
\<close>

definition spinButtonClick :: "app_state \<Rightarrow> real \<Rightarrow> app_state" where
  "spinButtonClick st rnd =
     (if length (names st) = 0 \<or> isSpinning st then st else spinWheel st rnd)"

section \<open>Editing the roster\<close>

text \<open>
  \<^verbatim>\<open>toLowerCase\<close> moves the capital letters \<open>A\<close> to \<open>Z\<close> and \<open>0xC0\<close> to \<open>0xDE\<close> (but
  not the sign \<open>0xD7\<close>) up by 32; \<^verbatim>\<open>trim\<close> removes the white space and line
  terminators of JavaScript at both ends: the code units 9 to 13, the space and the
  no-break space \<open>0xA0\<close>.
\<close>

definition lowerChar :: "char \<Rightarrow> char" where
  "lowerChar c =
     (let n = (of_char c :: nat)
      in if (65 \<le> n \<and> n \<le> 90) \<or> (192 \<le> n \<and> n \<le> 222 \<and> n \<noteq> 215)
         then char_of (n + 32) else c)"

definition toLowerCase :: "string \<Rightarrow> string" where
  "toLowerCase s = map lowerChar s"

definition isWhiteSpace :: "char \<Rightarrow> bool" where
  "isWhiteSpace c =
     (let n = (of_char c :: nat) in (9 \<le> n \<and> n \<le> 13) \<or> n = 32 \<or> n = 160)"

definition trim :: "string \<Rightarrow> string" where
  "trim s = dropWhile isWhiteSpace (rev (dropWhile isWhiteSpace (rev s)))"

text \<open>
  \<^verbatim>\<open>addName\<close>; the argument \<open>now\<close> is the string \<^verbatim>\<open>Date.now().toString()\<close>. A string is
  truthy when it is not empty, and \<^verbatim>\<open>names.some(...)\<close> is \<open>list_ex\<close>.
\<close>

definition addName :: "app_state \<Rightarrow> string \<Rightarrow> app_state" where
  "addName st now =
     (if trim (newName st) \<noteq> []
         \<and> \<not> list_ex (\<lambda>person. toLowerCase (name person) = toLowerCase (newName st))
               (names st)
      then
        (let newPerson = \<lparr>pid = now, name = trim (newName st), wins = 0\<rparr>
         in st\<lparr>names := names st @ [newPerson], newName := []\<rparr>)
      else st)"

text \<open>\<^verbatim>\<open>removeName\<close>\<close>

definition removeName :: "app_state \<Rightarrow> string \<Rightarrow> app_state" where
  "removeName st i = st\<lparr>names := filter (\<lambda>person. pid person \<noteq> i) (names st)\<rparr>"

text \<open>The handler of the button that decreases the wins of the entrant with the id \<open>i\<close>.\<close>

definition decreaseWins :: "app_state \<Rightarrow> string \<Rightarrow> app_state" where
  "decreaseWins st i =
     st\<lparr>names :=
          map (\<lambda>p. if pid p = i then p\<lparr>wins := max 0 (js_sub (wins p) 1)\<rparr> else p) (names st)\<rparr>"

text \<open>The handler of the button that resets all wins.\<close>

definition resetAllWins :: "app_state \<Rightarrow> app_state" where
  "resetAllWins st = st\<lparr>names := map (\<lambda>person. person\<lparr>wins := 0\<rparr>) (names st)\<rparr>"

section \<open>The user interface as events\<close>

text \<open>
  What can happen to the component: the text field changes, the Enter key is pressed
  in it, one of the buttons is clicked (the buttons of a roster row are given by the
  index of the row), or the oldest pending timeout fires. A disabled control delivers
  no event, so each event carries the \<^verbatim>\<open>disabled\<close> condition of its control.
\<close>

datatype event =
  ChangeInput string
  | PressEnter string
  | ClickAdd string
  | ClickDecrease nat
  | ClickRemove nat
  | ClickReset
  | ClickSpin real
  | TimeoutFires

fun handle :: "app_state \<Rightarrow> event \<Rightarrow> app_state" where
  "handle st (ChangeInput v) = (if isSpinning st then st else st\<lparr>newName := v\<rparr>)"
| "handle st (PressEnter now) = (if isSpinning st then st else addName st now)"
| "handle st (ClickAdd now) =
     (if isSpinning st \<or> trim (newName st) = [] then st else addName st now)"
| "handle st (ClickDecrease k) =
     (if k < length (names st) \<and> \<not> (isSpinning st \<or> wins (names st ! k) = 0)
      then decreaseWins st (pid (names st ! k)) else st)"
| "handle st (ClickRemove k) =
     (if k < length (names st) \<and> \<not> isSpinning st
      then removeName st (pid (names st ! k)) else st)"
| "handle st ClickReset = (if isSpinning st then st else resetAllWins st)"
| "handle st (ClickSpin rnd) = spinButtonClick st rnd"
| "handle st TimeoutFires = spinCommit st"

text \<open>\<^verbatim>\<open>Math.random()\<close> returns a number in \<open>[0, 1)\<close>.\<close>

fun wellFormed :: "event \<Rightarrow> bool" where
  "wellFormed (ClickSpin rnd) = (0 \<le> rnd \<and> rnd < 1)"
| "wellFormed _ = True"

section \<open>Notions of the specification\<close>

text \<open>
  A list of segments is joined from \<open>a\<close> to \<open>b\<close> when the first one starts at \<open>a\<close>,
  each one starts where the one before it ends, and the last one ends at \<open>b\<close>. A
  partition of the circle into segments is a list that is not empty and joined from 0
  to 360. (The segments of a partition also have \<open>startAngle \<le> endAngle\<close>; the results
  below do not need it.)
\<close>

fun joined :: "real \<Rightarrow> segment list \<Rightarrow> real \<Rightarrow> bool" where
  "joined a [] b = (a = b)"
| "joined a (s # ss) b = (startAngle s = a \<and> joined (endAngle s) ss b)"

definition coversCircle :: "segment list \<Rightarrow> bool" where
  "coversCircle segs \<longleftrightarrow> segs \<noteq> [] \<and> joined 0 segs 360"

text \<open>
  The angle \<open>(360 - ((p + 5*360 + s) mod 360)) mod 360\<close> of the specification, for the
  previous rotation \<open>p\<close> and the random angle \<open>s\<close>, in exact arithmetic, with the
  mathematical \<open>mod\<close>, whose result is in \<open>[0, m)\<close>.
\<close>

definition real_mod :: "real \<Rightarrow> real \<Rightarrow> real" where
  "real_mod x m = x - m * of_int \<lfloor>x / m\<rfloor>"

definition pointerAngleInWheelFrame :: "real \<Rightarrow> real \<Rightarrow> real" where
  "pointerAngleInWheelFrame p s = real_mod (360 - real_mod (p + 5 * 360 + s) 360) 360"

text \<open>The timeouts that a step from \<open>st\<close> to \<open>st'\<close> has scheduled.\<close>

definition scheduled :: "app_state \<Rightarrow> app_state \<Rightarrow> segment list" where
  "scheduled st st' = drop (length (timers st)) (timers st')"

text \<open>
  At most one spin is in flight: a timeout is pending exactly when \<^verbatim>\<open>isSpinning\<close> is
  set, and then there is one.
\<close>

definition oneSpinInFlight :: "app_state \<Rightarrow> bool" where
  "oneSpinInFlight st \<longleftrightarrow> length (timers st) = (if isSpinning st then 1 else 0)"

section \<open>Rosters and states of the examples\<close>

text \<open>Segments: two halves of the circle, and a second half that stops short.\<close>

definition segA :: segment where
  "segA = \<lparr>pid = ''1'', name = ''A'', wins = 0, weight = 1,
           startAngle = 0, endAngle = 180, segmentAngle = 180\<rparr>"

definition segB :: segment where
  "segB = \<lparr>pid = ''2'', name = ''B'', wins = 0, weight = 1,
           startAngle = 180, endAngle = 360, segmentAngle = 180\<rparr>"

definition segShort :: segment where
  "segShort = \<lparr>pid = ''2'', name = ''B'', wins = 0, weight = 1,
               startAngle = 180, endAngle = 359, segmentAngle = 179\<rparr>"

text \<open>Two entrants without wins.\<close>

definition entrantA :: person where
  "entrantA = \<lparr>pid = ''1'', name = ''A'', wins = 0\<rparr>"

definition entrantB :: person where
  "entrantB = \<lparr>pid = ''2'', name = ''B'', wins = 0\<rparr>"

definition stateAB :: app_state where
  "stateAB = \<lparr>names = [entrantA, entrantB], newName = [], isSpinning = False,
               winner = None, rotation = 0, timers = []\<rparr>"

definition stateBob :: app_state where
  "stateBob = \<lparr>names = [\<lparr>pid = ''1'', name = ''Bob'', wins = 0\<rparr>], newName = ''Bob '',
                isSpinning = False, winner = None, rotation = 0, timers = []\<rparr>"





text \<open>
  The roster of the wins 3, 3, 2, 1, 4, 4, 5, whose layout ends short of 360; a
  roster of one entrant with \<open>2 ^ 53 = 9007199254740992\<close> wins.
\<close>

definition rosterSeven :: "person list" where
  "rosterSeven =
     [\<lparr>pid = ''1'', name = ''P1'', wins = 3\<rparr>, \<lparr>pid = ''2'', name = ''P2'', wins = 3\<rparr>,
      \<lparr>pid = ''3'', name = ''P3'', wins = 2\<rparr>, \<lparr>pid = ''4'', name = ''P4'', wins = 1\<rparr>,
      \<lparr>pid = ''5'', name = ''P5'', wins = 4\<rparr>, \<lparr>pid = ''6'', name = ''P6'', wins = 4\<rparr>,
      \<lparr>pid = ''7'', name = ''P7'', wins = 5\<rparr>]"

definition stateSeven :: app_state where
  "stateSeven = \<lparr>names = rosterSeven, newName = [], isSpinning = False,
                  winner = None, rotation = 0, timers = []\<rparr>"

definition stateMany :: app_state where
  "stateMany = \<lparr>names = [\<lparr>pid = ''1'', name = ''A'', wins = 9007199254740992\<rparr>], newName = [],
                 isSpinning = False, winner = None, rotation = 0, timers = []\<rparr>"

section \<open>Rounding to binary64\<close>

subsection \<open>Rounding to the nearest integer\<close>

lemma rne_of_int: "rne (of_int n) = n"
  by (simp add: rne_def)

lemma rne_cases: "rne q = \<lfloor>q\<rfloor> \<or> rne q = \<lfloor>q\<rfloor> + 1"
  by (simp add: rne_def Let_def)

lemma rne_mono:
  assumes "q1 \<le> q2"
  shows "rne q1 \<le> rne q2"
proof (cases "\<lfloor>q1\<rfloor> = \<lfloor>q2\<rfloor>")
  case True
  with assms show ?thesis by (auto simp: rne_def Let_def)
next
  case False
  with assms have "\<lfloor>q1\<rfloor> + 1 \<le> \<lfloor>q2\<rfloor>" using floor_mono [OF assms] by linarith
  moreover have "rne q1 \<le> \<lfloor>q1\<rfloor> + 1" using rne_cases [of q1] by linarith
  moreover have "\<lfloor>q2\<rfloor> \<le> rne q2" using rne_cases [of q2] by linarith
  ultimately show ?thesis by linarith
qed

lemma rne_minus: "rne (- q) = - rne q"
proof (cases "q = of_int \<lfloor>q\<rfloor>")
  case True
  then obtain n where q: "q = of_int n" ..
  have "rne (- of_int n) = rne (of_int (- n))" by simp
  then show ?thesis unfolding q by (simp only: rne_of_int)
next
  case False
  then have lt: "of_int \<lfloor>q\<rfloor> < q" using of_int_floor_le [of q] by linarith
  have fl: "\<lfloor>- q\<rfloor> = - \<lfloor>q\<rfloor> - 1"
    by (rule floor_unique) (use lt in \<open>simp_all\<close>, linarith)
  show ?thesis
    unfolding rne_def Let_def fl by (auto simp: algebra_simps)
qed


lemma powi_two_pos: "0 < (2::real) powi k"
  by simp

lemma powi_two_mono: "k \<le> l \<Longrightarrow> (2::real) powi k \<le> 2 powi l"
  by (rule power_int_increasing) simp_all

lemma powi_two_strict_mono: "k < l \<Longrightarrow> (2::real) powi k < 2 powi l"
  by (rule power_int_strict_increasing) simp_all

lemma ilog2_bounds:
  assumes "0 < x"
  shows "2 powi ilog2 x \<le> x \<and> x < 2 powi (ilog2 x + 1)"
proof (cases "1 \<le> x")
  case True
  let ?n = "nat \<lfloor>x\<rfloor>"
  let ?k = "floorlog 2 ?n"
  have n: "0 < ?n" using True by simp
  from floorlog_bounds [OF n, of 2] have b: "2 ^ (?k - 1) \<le> ?n" "?n < 2 ^ ?k" by simp_all
  have "?k \<noteq> 0" using n by (simp add: floorlog_eq_zero_iff)
  then have k: "0 < ?k" by simp
  have il: "ilog2 x = int ?k - 1" using True by (simp add: ilog2_def)
  have nx: "real ?n \<le> x" using True by simp
  have xn: "x < real ?n + 1" using True by (simp add: of_nat_nat)
  have p1: "(2::real) powi (int ?k - 1) = 2 ^ (?k - 1)"
    using k by (simp add: power_int_def nat_diff_distrib' of_nat_diff)
  have p2: "(2::real) powi (int ?k - 1 + 1) = 2 ^ ?k"
    by (simp add: power_int_def)
  have "(2::real) ^ (?k - 1) \<le> real ?n"
  proof -
    have "real (2 ^ (?k - 1)) \<le> real ?n" using b(1) by (simp only: of_nat_le_iff)
    moreover have "real (2 ^ (?k - 1)) = 2 ^ (?k - 1)" by simp
    ultimately show ?thesis by linarith
  qed
  moreover have "real ?n + 1 \<le> 2 ^ ?k"
  proof -
    from b(2) have "?n + 1 \<le> 2 ^ ?k" by linarith
    then have "real (?n + 1) \<le> real (2 ^ ?k)" by (simp only: of_nat_le_iff)
    moreover have "real (?n + 1) = real ?n + 1" "real (2 ^ ?k) = 2 ^ ?k" by simp_all
    ultimately show ?thesis by linarith
  qed
  ultimately show ?thesis unfolding il p1 p2 using nx xn by linarith
next
  case False
  with assms have x1: "x < 1" by simp
  let ?y = "1 / x"
  let ?m = "nat \<lceil>?y\<rceil> - 1"
  let ?k = "floorlog 2 ?m"
  have y1: "1 < ?y" using assms x1 by simp
  then have c2: "2 \<le> \<lceil>?y\<rceil>" by linarith
  then have m: "0 < ?m" by simp
  from floorlog_bounds [OF m, of 2] have b: "2 ^ (?k - 1) \<le> ?m" "?m < 2 ^ ?k" by simp_all
  have "?k \<noteq> 0" using m by (simp add: floorlog_eq_zero_iff)
  then have k: "0 < ?k" by simp
  have il: "ilog2 x = - int ?k" using False by (simp add: ilog2_def)
  have "int ?m = \<lceil>?y\<rceil> - 1" using c2 by linarith
  then have "real_of_int (int ?m) = real_of_int (\<lceil>?y\<rceil> - 1)" by (simp only:)
  then have m_real: "real ?m = of_int \<lceil>?y\<rceil> - 1" by simp
  have lo: "real ?m < ?y" unfolding m_real by linarith
  have "?m + 1 \<le> 2 ^ ?k" using b(2) by linarith
  then have "real (?m + 1) \<le> real (2 ^ ?k)" by (simp only: of_nat_le_iff)
  moreover have "real (?m + 1) = real ?m + 1" "real (2 ^ ?k) = 2 ^ ?k" by simp_all
  ultimately have "real ?m + 1 \<le> 2 ^ ?k" by linarith
  then have hi: "?y \<le> 2 ^ ?k" using m_real le_of_int_ceiling [of ?y] by linarith
  have "real (2 ^ (?k - 1)) \<le> real ?m" using b(1) by (simp only: of_nat_le_iff)
  moreover have "real (2 ^ (?k - 1)) = 2 ^ (?k - 1)" by simp
  ultimately have lo2: "(2::real) ^ (?k - 1) < ?y" using lo by linarith
  have p1: "(2::real) powi (- int ?k) = 1 / 2 ^ ?k"
    by (simp add: power_int_def field_simps)
  have p2: "(2::real) powi (- int ?k + 1) = 1 / 2 ^ (?k - 1)"
    using k by (simp add: power_int_def field_simps nat_diff_distrib' of_nat_diff)
  have a: "1 / 2 ^ ?k \<le> x" using hi assms by (simp add: field_simps)
  have c: "x < 1 / 2 ^ (?k - 1)" using lo2 assms by (simp add: field_simps)
  show ?thesis unfolding il p1 p2 using a c by simp
qed

lemma ilog2_unique:
  assumes "0 < x" "2 powi k \<le> x" "x < 2 powi (k + 1)"
  shows "ilog2 x = k"
proof (rule antisym)
  show "ilog2 x \<le> k"
  proof (rule ccontr)
    assume "\<not> ilog2 x \<le> k"
    then have "k + 1 \<le> ilog2 x" by simp
    from powi_two_mono [OF this] ilog2_bounds [OF assms(1)] assms(3) show False by linarith
  qed
  show "k \<le> ilog2 x"
  proof (rule ccontr)
    assume "\<not> k \<le> ilog2 x"
    then have "ilog2 x + 1 \<le> k" by simp
    from powi_two_mono [OF this] ilog2_bounds [OF assms(1)] assms(2) show False by linarith
  qed
qed

lemma ilog2_mono:
  assumes "0 < x" "x \<le> y"
  shows "ilog2 x \<le> ilog2 y"
proof (rule ccontr)
  assume "\<not> ilog2 x \<le> ilog2 y"
  then have "ilog2 y + 1 \<le> ilog2 x" by simp
  from powi_two_mono [OF this] ilog2_bounds [OF assms(1)] ilog2_bounds [of y] assms
  show False by linarith
qed


lemma ulpExponent_minus: "ulpExponent (- x) = ulpExponent x"
  by (simp add: ulpExponent_def)

lemma round64_zero: "round64 0 = 0"
  by (simp add: round64_def)

lemma round64_minus: "round64 (- x) = - round64 x"
  by (simp add: round64_def ulpExponent_minus rne_minus)

lemma round64_nonneg:
  assumes "0 \<le> x"
  shows "0 \<le> round64 x"
proof (cases "x = 0")
  case True
  then show ?thesis by (simp add: round64_zero)
next
  case False
  have "0 \<le> x / 2 powi ulpExponent x" using assms by simp
  from rne_mono [OF this] have "0 \<le> rne (x / 2 powi ulpExponent x)"
    using rne_of_int [of 0] by simp
  then show ?thesis using False by (simp add: round64_def)
qed

lemma round64_nonpos: "x \<le> 0 \<Longrightarrow> round64 x \<le> 0"
  using round64_nonneg [of "- x"] by (simp add: round64_minus)

lemma powi_two_diff: "(2::real) powi a / 2 powi b = 2 powi (a - b)"
  by (simp add: power_int_diff)

lemma of_int_two_power: "real_of_int (2 ^ k) = 2 powi int k"
  by simp

lemma of_int_le_two_powi: "n \<le> 2 ^ k \<Longrightarrow> real_of_int n \<le> 2 powi int k"
  using of_int_le_iff [of n "2 ^ k", where 'a = real] by simp

lemma two_powi_le_of_int: "2 ^ k \<le> n \<Longrightarrow> 2 powi int k \<le> real_of_int n"
  using of_int_le_iff [of "2 ^ k" n, where 'a = real] by simp

lemma round64_upper:
  assumes "0 < x"
  shows "round64 x \<le> 2 powi (ulpExponent x + 53)"
proof -
  let ?e = "ulpExponent x"
  have "ilog2 x + 1 \<le> ?e + 53" using assms by (simp add: ulpExponent_def)
  from powi_two_mono [OF this] ilog2_bounds [OF assms]
  have "x \<le> 2 powi (?e + 53)" by linarith
  then have "x / 2 powi ?e \<le> 2 powi (?e + 53) / 2 powi ?e"
    by (intro divide_right_mono) simp_all
  also have "\<dots> = of_int (2 ^ 53)" by (simp add: powi_two_diff)
  finally have "rne (x / 2 powi ?e) \<le> 2 ^ 53"
    using rne_mono [of "x / 2 powi ?e" "of_int (2 ^ 53)"] by (simp only: rne_of_int)
  then have "real_of_int (rne (x / 2 powi ?e)) \<le> 2 powi 53"
    using of_int_le_two_powi [of _ 53] by simp
  then have "2 powi ?e * real_of_int (rne (x / 2 powi ?e)) \<le> 2 powi ?e * 2 powi 53"
    by (intro mult_left_mono) simp_all
  also have "\<dots> = 2 powi (?e + 53)" by (simp add: power_int_add)
  finally show ?thesis using assms by (simp add: round64_def)
qed

lemma round64_lower:
  assumes "0 < x" and "- 1022 \<le> ilog2 x"
  shows "2 powi ilog2 x \<le> round64 x"
proof -
  let ?e = "ulpExponent x"
  have e: "?e = ilog2 x - 52" using assms by (simp add: ulpExponent_def)
  have "2 powi (?e + 52) \<le> x" using ilog2_bounds [OF assms(1)] by (simp add: e)
  then have "2 powi (?e + 52) / 2 powi ?e \<le> x / 2 powi ?e"
    by (intro divide_right_mono) simp_all
  moreover have "2 powi (?e + 52) / 2 powi ?e = real_of_int (2 ^ 52)" by (simp add: powi_two_diff)
  ultimately have "real_of_int (2 ^ 52) \<le> x / 2 powi ?e" by linarith
  from rne_mono [OF this] have "2 ^ 52 \<le> rne (x / 2 powi ?e)" by (simp only: rne_of_int)
  then have "2 powi 52 \<le> real_of_int (rne (x / 2 powi ?e))"
    using two_powi_le_of_int [of 52] by simp
  then have "2 powi ?e * 2 powi 52 \<le> 2 powi ?e * real_of_int (rne (x / 2 powi ?e))"
    by (intro mult_left_mono) simp_all
  moreover have "2 powi ?e * 2 powi 52 = (2::real) powi ilog2 x"
    using power_int_add [of "2::real" "ilog2 x - 52" 52] by (simp add: e)
  moreover have "round64 x = 2 powi ?e * real_of_int (rne (x / 2 powi ?e))"
    using assms by (simp add: round64_def)
  ultimately show ?thesis by linarith
qed

lemma round64_mono_pos:
  assumes "0 < x" and "x \<le> y"
  shows "round64 x \<le> round64 y"
proof -
  have y: "0 < y" using assms by linarith
  have le: "ulpExponent x \<le> ulpExponent y"
    using ilog2_mono [OF assms] assms y by (simp add: ulpExponent_def)
  show ?thesis
  proof (cases "ulpExponent x = ulpExponent y")
    case True
    have "x / 2 powi ulpExponent y \<le> y / 2 powi ulpExponent y"
      using assms(2) by (intro divide_right_mono) simp_all
    from rne_mono [OF this]
    have "2 powi ulpExponent y * real_of_int (rne (x / 2 powi ulpExponent y))
        \<le> 2 powi ulpExponent y * real_of_int (rne (y / 2 powi ulpExponent y))"
      by (intro mult_left_mono) simp_all
    then show ?thesis using assms(1) y by (simp add: round64_def True)
  next
    case False
    with le have lt: "ulpExponent x < ulpExponent y" by simp
    have "- 1074 \<le> ulpExponent x" by (simp add: ulpExponent_def)
    with lt have "- 1074 < ulpExponent y" by linarith
    then have norm: "- 1022 \<le> ilog2 y" and ey: "ulpExponent y = ilog2 y - 52"
      using y by (simp_all add: ulpExponent_def max_def split: if_splits)
    have "ulpExponent x + 53 \<le> ilog2 y" using lt ey by simp
    from powi_two_mono [OF this] round64_upper [OF assms(1)] round64_lower [OF y norm]
    show ?thesis by linarith
  qed
qed

lemma round64_mono:
  assumes "x \<le> y"
  shows "round64 x \<le> round64 y"
proof -
  consider "0 < x" | "x \<le> 0" "0 \<le> y" | "y < 0" by linarith
  then show ?thesis
  proof cases
    case 1
    then show ?thesis using assms by (rule round64_mono_pos)
  next
    case 2
    then show ?thesis using round64_nonpos [of x] round64_nonneg [of y] by linarith
  next
    case 3
    then have "0 < - y" "- y \<le> - x" using assms by simp_all
    from round64_mono_pos [OF this] show ?thesis by (simp add: round64_minus)
  qed
qed

lemma round64_fix:
  assumes "x / 2 powi ulpExponent x = of_int n"
  shows "round64 x = x"
proof (cases "x = 0")
  case True
  then show ?thesis by (simp add: round64_zero)
next
  case False
  have "x = 2 powi ulpExponent x * of_int n" using assms by (simp add: field_simps)
  then show ?thesis using False assms by (simp add: round64_def rne_of_int)
qed

lemma round64_scaled_pos:
  assumes "0 < n" and "n \<le> 2 ^ 53" and "- 1074 \<le> e"
  shows "round64 (2 powi e * of_int n) = 2 powi e * of_int n"
proof -
  let ?v = "2 powi e * real_of_int n"
  have v: "0 < ?v" using assms(1) by simp
  let ?E = "max (ilog2 ?v) (- 1022)"
  have ue: "ulpExponent ?v = ?E - 52" using v by (simp add: ulpExponent_def)
  have n53: "real_of_int n \<le> 2 powi 53"
    using assms(2) of_int_le_two_powi [of n 53] by simp
  have vle: "?v \<le> 2 powi (e + 53)"
  proof -
    have "?v \<le> 2 powi e * 2 powi 53" using n53 by (intro mult_left_mono) simp_all
    then show ?thesis by (simp add: power_int_add)
  qed
  show ?thesis
  proof (cases "?E - 52 \<le> e")
    case True
    let ?k = "n * 2 ^ nat (e - (?E - 52))"
    have "?v / 2 powi (?E - 52) = of_int n * 2 powi (e - (?E - 52))"
      by (simp add: power_int_diff)
    also have "2 powi (e - (?E - 52)) = (2::real) ^ nat (e - (?E - 52))"
      using True by (simp add: power_int_def)
    finally have "?v / 2 powi ulpExponent ?v = of_int ?k" by (simp add: ue)
    then show ?thesis by (rule round64_fix)
  next
    case False
    then have big: "e + 53 \<le> ?E" by simp
    then have E: "?E = ilog2 ?v" using assms(3) by linarith
    have "(2::real) powi (e + 53) \<le> 2 powi ilog2 ?v"
      using big E by (intro powi_two_mono) simp
    with ilog2_bounds [OF v] vle have veq: "?v = 2 powi (e + 53)" by linarith
    have il: "ilog2 ?v = e + 53"
      by (rule ilog2_unique [OF v]) (simp_all add: veq powi_two_strict_mono)
    have uev: "ulpExponent ?v = e + 1" using ue E il by linarith
    have "?v / 2 powi ulpExponent ?v = ?v / 2 powi (e + 1)" by (simp only: uev)
    also have "\<dots> = 2 powi (e + 53) / 2 powi (e + 1)" by (simp only: veq)
    also have "\<dots> = of_int (2 ^ 52)" by (simp add: powi_two_diff)
    finally show ?thesis by (rule round64_fix)
  qed
qed

lemma round64_scaled:
  assumes "\<bar>n\<bar> \<le> 2 ^ 53" and "- 1074 \<le> e"
  shows "round64 (2 powi e * of_int n) = 2 powi e * of_int n"
proof -
  consider "n = 0" | "0 < n" | "n < 0" by linarith
  then show ?thesis
  proof cases
    case 1
    then show ?thesis by (simp add: round64_zero)
  next
    case 2
    with assms show ?thesis by (intro round64_scaled_pos) simp_all
  next
    case 3
    with assms have "round64 (2 powi e * of_int (- n)) = 2 powi e * of_int (- n)"
      by (intro round64_scaled_pos) simp_all
    then show ?thesis using round64_minus [of "2 powi e * of_int n"] by simp
  qed
qed

lemma round64_of_int: "\<bar>n\<bar> \<le> 2 ^ 53 \<Longrightarrow> round64 (of_int n) = of_int n"
  using round64_scaled [of n 0] by simp

lemma rne_upper_bound:
  assumes "0 < x"
  shows "0 \<le> rne (x / 2 powi ulpExponent x) \<and> rne (x / 2 powi ulpExponent x) \<le> 2 ^ 53"
proof -
  let ?e = "ulpExponent x"
  have "ilog2 x + 1 \<le> ?e + 53" using assms by (simp add: ulpExponent_def)
  from powi_two_mono [OF this] ilog2_bounds [OF assms]
  have "x \<le> 2 powi (?e + 53)" by linarith
  then have "x / 2 powi ?e \<le> 2 powi (?e + 53) / 2 powi ?e"
    by (intro divide_right_mono) simp_all
  also have "\<dots> = of_int (2 ^ 53)" by (simp add: powi_two_diff)
  finally have a: "rne (x / 2 powi ?e) \<le> 2 ^ 53"
    using rne_mono [of "x / 2 powi ?e" "of_int (2 ^ 53)"] by (simp only: rne_of_int)
  have "real_of_int 0 \<le> x / 2 powi ?e" using assms by simp
  from rne_mono [OF this] have "0 \<le> rne (x / 2 powi ?e)" by (simp only: rne_of_int)
  with a show ?thesis by simp
qed

lemma ulpExponent_lower: "- 1074 \<le> ulpExponent x"
  by (simp add: ulpExponent_def)

lemma round64_idem_pos:
  assumes "0 < x"
  shows "round64 (round64 x) = round64 x"
proof -
  let ?n = "rne (x / 2 powi ulpExponent x)"
  have r: "round64 x = 2 powi ulpExponent x * of_int ?n" using assms by (simp add: round64_def)
  from rne_upper_bound [OF assms] have "\<bar>?n\<bar> \<le> 2 ^ 53" by simp
  from round64_scaled [OF this ulpExponent_lower [of x]] show ?thesis by (simp only: r)
qed

lemma round64_idem: "round64 (round64 x) = round64 x"
proof -
  consider "x = 0" | "0 < x" | "x < 0" by linarith
  then show ?thesis
  proof cases
    case 1
    then show ?thesis by (simp add: round64_zero)
  next
    case 2
    then show ?thesis by (rule round64_idem_pos)
  next
    case 3
    then have "round64 (round64 (- x)) = round64 (- x)" by (intro round64_idem_pos) simp
    then show ?thesis by (simp add: round64_minus)
  qed
qed

subsection \<open>Binary64 numbers\<close>

lemma isNumber_round64: "isNumber (round64 x)"
  by (simp add: isNumber_def round64_idem)

lemma isNumber_zero: "isNumber 0"
  by (simp add: isNumber_def round64_zero)

lemma isNumber_of_int: "\<bar>n\<bar> \<le> 2 ^ 53 \<Longrightarrow> isNumber (of_int n)"
  by (simp add: isNumber_def round64_of_int)


lemma round64_ge_number: "isNumber a \<Longrightarrow> a \<le> x \<Longrightarrow> a \<le> round64 x"
  using round64_mono [of a x] by (simp add: isNumber_def)

lemma round64_le_number: "isNumber b \<Longrightarrow> x \<le> b \<Longrightarrow> round64 x \<le> b"
  using round64_mono [of x b] by (simp add: isNumber_def)

text \<open>The facts that evaluate \<open>round64\<close> at a numeral.\<close>

lemmas round64_eval =
  round64_def ulpExponent_def ilog2_def rne_def compute_floorlog Let_def power_int_minus


lemma round64_fifth: "round64 (2 / 10) = 3602879701896397 / 18014398509481984"
  by (simp add: round64_eval)

lemma round64_numerals:
  "round64 1 = 1" "round64 2 = 2" "round64 180 = 180" "round64 360 = 360"
  "round64 1800 = 1800" "round64 2160 = 2160"
  by (simp_all add: round64_eval)

subsection \<open>The remainder\<close>

lemma js_rem_nonneg:
  assumes "0 \<le> x" "0 < y"
  shows "0 \<le> js_rem x y \<and> js_rem x y < y"
proof -
  let ?q = "x / y"
  have q0: "0 \<le> ?q" using assms by simp
  have t: "js_trunc ?q = \<lfloor>?q\<rfloor>" using q0 by (simp add: js_trunc_def)
  have lo: "of_int \<lfloor>?q\<rfloor> \<le> ?q" by (rule of_int_floor_le)
  have hi: "?q < of_int \<lfloor>?q\<rfloor> + 1" by linarith
  have yq: "y * ?q = x" using assms(2) by simp
  have "y * of_int \<lfloor>?q\<rfloor> \<le> y * ?q"
    using lo assms(2) by (intro mult_left_mono) simp_all
  moreover have "y * ?q < y * (of_int \<lfloor>?q\<rfloor> + 1)"
    using hi assms(2) by (simp only: mult_less_cancel_left_pos)
  ultimately show ?thesis
    using assms(2) unfolding js_rem_def t yq by (simp add: algebra_simps)
qed

lemma js_rem_neg:
  assumes "x < 0" "0 < y"
  shows "- y < js_rem x y \<and> js_rem x y \<le> 0"
proof -
  let ?q = "x / y"
  have q0: "?q < 0" using assms by (simp add: divide_neg_pos)
  have t: "js_trunc ?q = \<lceil>?q\<rceil>" using q0 by (simp add: js_trunc_def)
  have lo: "?q \<le> of_int \<lceil>?q\<rceil>" by (rule le_of_int_ceiling)
  have hi: "of_int \<lceil>?q\<rceil> < ?q + 1" by linarith
  have yq: "y * ?q = x" using assms(2) by simp
  have "y * ?q \<le> y * of_int \<lceil>?q\<rceil>"
    using lo assms(2) by (intro mult_left_mono) simp_all
  moreover have "y * of_int \<lceil>?q\<rceil> < y * (?q + 1)"
    using hi assms(2) by (simp only: mult_less_cancel_left_pos)
  ultimately show ?thesis
    using assms(2) unfolding js_rem_def t yq by (simp add: algebra_simps)
qed

lemma js_rem_abs: "0 < y \<Longrightarrow> - y < js_rem x y \<and> js_rem x y < y"
  using js_rem_nonneg [of x y] js_rem_neg [of x y] by (cases "0 \<le> x") auto

section \<open>The weight model\<close>


lemma weightOf_eq:
  "weightOf w = max (round64 (1 / 10)) (round64 (1 - round64 (w * round64 (2 / 10))))"
  by (simp add: weightOf_def baseWeight_def penaltyPerWin_def js_sub_def js_mul_def)





lemma calculateWeightedSegments_nth:
  "i < length ns \<Longrightarrow> calculateWeightedSegments ns ! i = addWeight (ns ! i)"
  by (simp add: calculateWeightedSegments_def)


lemma weightOf_examples:
  "weightOf 0 = 1" "weightOf 3 = 900719925474099 / 2251799813685248"
  "weightOf 7 = round64 (1 / 10)"
  by (simp_all add: weightOf_eq round64_eval)



section \<open>The tested angle and the scan of the segments\<close>

lemma finalRotation_range: "- 360 < finalRotation p rnd \<and> finalRotation p rnd < 360"
  unfolding finalRotation_def using js_rem_abs [of 360] by simp

text \<open>
  Whatever the rotation and the random number: the angle tested by the loop is in
  \<open>[0, 360)\<close>, since rounding keeps the sign.
\<close>

lemma segmentTopAngle_range:
  "0 \<le> segmentTopAngle (finalRotation p rnd) \<and> segmentTopAngle (finalRotation p rnd) < 360"
proof -
  have "0 \<le> 360 - finalRotation p rnd" using finalRotation_range [of p rnd] by simp
  then have "0 \<le> js_sub 360 (finalRotation p rnd)"
    unfolding js_sub_def by (rule round64_nonneg)
  then show ?thesis unfolding segmentTopAngle_def using js_rem_nonneg [of _ 360] by simp
qed

text \<open>The tested angle, with every operation of the source written out.\<close>

lemma segmentTopAngle_unfold:
  "segmentTopAngle (finalRotation p rnd) =
     js_rem (round64 (360 - js_rem (round64 (p + round64 (1800 + round64 (rnd * 360)))) 360)) 360"
  by (simp add: segmentTopAngle_def finalRotation_def totalRotation_def baseRotation_def
      randomAngle_def js_add_def js_sub_def js_mul_def round64_numerals)

lemma finalRotation_example: "finalRotation 0 (1 / 1024) = 45 / 128"
proof -
  have r: "round64 (45 / 128) = 45 / 128" "round64 (230445 / 128) = 230445 / 128"
    by (simp_all add: round64_eval)
  show ?thesis
    by (simp add: r finalRotation_def totalRotation_def baseRotation_def randomAngle_def
        js_add_def js_mul_def round64_numerals js_rem_def js_trunc_def)
qed

lemma segmentTopAngle_example: "segmentTopAngle (45 / 128) = 46035 / 128"
proof -
  have r: "round64 (46035 / 128) = 46035 / 128" by (simp add: round64_eval)
  show ?thesis by (simp add: r segmentTopAngle_def js_sub_def js_rem_def js_trunc_def)
qed

lemma scanSegments_find:
  "scanSegments fr sel segs =
     (case find (atTop (segmentTopAngle fr)) segs of None \<Rightarrow> sel | Some s \<Rightarrow> s)"
  by (induction segs) simp_all

lemma joined_covers:
  "joined a segs b \<Longrightarrow> a \<le> t \<Longrightarrow> t < b \<Longrightarrow> \<exists>s \<in> set segs. atTop t s"
proof (induction segs arbitrary: a)
  case Nil
  then show ?case by simp
next
  case (Cons s ss)
  show ?case
  proof (cases "t < endAngle s")
    case True
    with Cons.prems show ?thesis by (simp add: atTop_def)
  next
    case False
    then have "endAngle s \<le> t" by simp
    with Cons.IH [of "endAngle s"] Cons.prems show ?thesis by auto
  qed
qed

lemma find_first_index:
  "find P xs = Some x \<Longrightarrow> \<exists>i < length xs. P (xs ! i) \<and> x = xs ! i \<and> (\<forall>j < i. \<not> P (xs ! j))"
  by (simp add: find_Some_iff)

text \<open>When some segment contains the tested angle, the winner is the first one that does.\<close>

lemma selectWinner_first_of_some:
  assumes "\<exists>s \<in> set segs. atTop (segmentTopAngle fr) s"
  shows "\<exists>i < length segs.
           atTop (segmentTopAngle fr) (segs ! i)
         \<and> (\<forall>j < i. \<not> atTop (segmentTopAngle fr) (segs ! j))
         \<and> selectWinner segs fr = Some (segs ! i)"
proof -
  let ?t = "segmentTopAngle fr"
  from assms have "find (atTop ?t) segs \<noteq> None" by (auto simp: find_None_iff)
  then obtain w where w: "find (atTop ?t) segs = Some w" by blast
  from find_first_index [OF w] obtain i where i: "i < length segs" "atTop ?t (segs ! i)"
    "w = segs ! i" "\<forall>j < i. \<not> atTop ?t (segs ! j)" by blast
  from assms obtain s0 rest where segs: "segs = s0 # rest" by (cases segs) auto
  have "selectWinner segs fr = Some w"
    unfolding selectWinner_def segs list.case scanSegments_find
    using w unfolding segs by simp
  with i show ?thesis by blast
qed

text \<open>On a partition of the circle some segment contains the tested angle.\<close>

lemma selectWinner_first_match:
  assumes "coversCircle segs"
  shows "\<exists>i < length segs.
           atTop (segmentTopAngle (finalRotation p rnd)) (segs ! i)
         \<and> (\<forall>j < i. \<not> atTop (segmentTopAngle (finalRotation p rnd)) (segs ! j))
         \<and> selectWinner segs (finalRotation p rnd) = Some (segs ! i)"
proof -
  from assms have j: "joined 0 segs 360" by (simp add: coversCircle_def)
  from joined_covers [OF j] segmentTopAngle_range [of p rnd]
  have "\<exists>s \<in> set segs. atTop (segmentTopAngle (finalRotation p rnd)) s" by blast
  then show ?thesis by (rule selectWinner_first_of_some)
qed

text \<open>
  C2, as stated, fails. The segments \<open>segA\<close> and \<open>segShort\<close> cover \<open>[0, 359)\<close> only. With the
  previous rotation 0 and \<^verbatim>\<open>Math.random()\<close> returning \<open>1/1024\<close> the tested angle is
  \<open>359.6484375\<close>, no segment contains it, and the winner is the first segment \<open>segA\<close>, which is
  not the last one.
\<close>

theorem C2_last_segment_counterexample:
  "\<not> atTop (segmentTopAngle (finalRotation 0 (1 / 1024))) segA
   \<and> \<not> atTop (segmentTopAngle (finalRotation 0 (1 / 1024))) segShort
   \<and> selectWinner [segA, segShort] (finalRotation 0 (1 / 1024)) = Some segA
   \<and> selectWinner [segA, segShort] (finalRotation 0 (1 / 1024)) \<noteq> Some (last [segA, segShort])"
  by (simp add: finalRotation_example segmentTopAngle_example selectWinner_def atTop_def
      segA_def segShort_def)

text \<open>
  C2, amended. If the list of segments is not empty and no segment's interval
  \<open>[startAngle, endAngle)\<close> contains the tested angle, the spin selects the first segment
  of the list as the winner (the initial value \<^verbatim>\<open>segments[0]\<close> of \<^verbatim>\<open>selectedWinner\<close>);
  it does not fail.
\<close>

theorem C2_fallback_first_segment:
  assumes "segs \<noteq> []"
    and "\<forall>s \<in> set segs. \<not> atTop (segmentTopAngle (finalRotation p rnd)) s"
  shows "selectWinner segs (finalRotation p rnd) = Some (hd segs)"
proof -
  from assms(1) obtain s0 rest where segs: "segs = s0 # rest" by (cases segs) auto
  have "find (atTop (segmentTopAngle (finalRotation p rnd))) segs = None"
    using assms(2) by (simp add: find_None_iff)
  then show ?thesis
    unfolding selectWinner_def scanSegments_find by (simp add: segs)
qed

theorem C2_fallback_witness:
  "[segA, segShort] \<noteq> []
   \<and> \<not> atTop (segmentTopAngle (finalRotation 0 (1 / 1024))) segA
   \<and> \<not> atTop (segmentTopAngle (finalRotation 0 (1 / 1024))) segShort
   \<and> selectWinner [segA, segShort] (finalRotation 0 (1 / 1024)) = Some segA"
proof -
  have ne: "[segA, segShort] \<noteq> []" by simp
  have no: "\<forall>s \<in> set [segA, segShort].
      \<not> atTop (segmentTopAngle (finalRotation 0 (1 / 1024))) s"
    by (simp add: finalRotation_example segmentTopAngle_example atTop_def segA_def segShort_def)
  from C2_fallback_first_segment [OF ne no] ne no show ?thesis by simp
qed

section \<open>The segment layout\<close>

lemma length_layoutFrom: "length (layoutFrom T c ps) = length ps"
  by (induction ps arbitrary: c) (simp_all add: Let_def)

lemma layoutFrom_nth:
  "i < length ps \<Longrightarrow>
     pid (layoutFrom T c ps ! i) = pid (ps ! i)
   \<and> name (layoutFrom T c ps ! i) = name (ps ! i)
   \<and> wins (layoutFrom T c ps ! i) = wins (ps ! i)
   \<and> weight (layoutFrom T c ps ! i) = weight (ps ! i)
   \<and> segmentAngle (layoutFrom T c ps ! i) = js_mul (js_div (weight (ps ! i)) T) 360
   \<and> endAngle (layoutFrom T c ps ! i)
       = js_add (startAngle (layoutFrom T c ps ! i)) (segmentAngle (layoutFrom T c ps ! i))"
proof (induction ps arbitrary: c i)
  case Nil
  then show ?case by simp
next
  case (Cons p ps)
  show ?case
  proof (cases i)
    case 0
    then show ?thesis by (simp add: Let_def)
  next
    case (Suc k)
    with Cons.prems have "k < length ps" by simp
    from Cons.IH [OF this] show ?thesis by (simp add: Suc Let_def)
  qed
qed









lemma length_getSegmentAngles: "length (getSegmentAngles ns) = length ns"
  by (simp add: getSegmentAngles_def Let_def length_layoutFrom calculateWeightedSegments_def)

lemma getSegmentAngles_nth:
  assumes "i < length ns"
  shows "pid (getSegmentAngles ns ! i) = pid (ns ! i)
   \<and> name (getSegmentAngles ns ! i) = name (ns ! i)
   \<and> wins (getSegmentAngles ns ! i) = wins (ns ! i)
   \<and> weight (getSegmentAngles ns ! i) = weightOf (wins (ns ! i))
   \<and> segmentAngle (getSegmentAngles ns ! i)
       = round64 (round64 (weightOf (wins (ns ! i))
                            / totalWeightOf (calculateWeightedSegments ns)) * 360)
   \<and> endAngle (getSegmentAngles ns ! i)
       = round64 (startAngle (getSegmentAngles ns ! i) + segmentAngle (getSegmentAngles ns ! i))"
proof -
  let ?ps = "calculateWeightedSegments ns"
  have len: "i < length ?ps" using assms by (simp add: calculateWeightedSegments_def)
  have nth: "?ps ! i = addWeight (ns ! i)" using assms by (rule calculateWeightedSegments_nth)
  from layoutFrom_nth [OF len, of "totalWeightOf ?ps" 0]
  show ?thesis
    unfolding getSegmentAngles_def Let_def nth js_add_def js_mul_def js_div_def
    by (simp add: addWeight_def)
qed





lemma layout_entrantA_entrantB: "getSegmentAngles [entrantA, entrantB] = [segA, segB]"
  by (simp add: getSegmentAngles_def calculateWeightedSegments_def addWeight_def
      weightOf_examples totalWeightOf_def js_add_def js_mul_def js_div_def round64_numerals
      entrantA_def entrantB_def segA_def segB_def)
    (simp add: round64_eval)
















section \<open>The spin as a step of the state\<close>

lemma selectWinner_layout_defined:
  "ns \<noteq> [] \<Longrightarrow> \<exists>sel. selectWinner (getSegmentAngles ns) fr = Some sel"
  using length_getSegmentAngles [of ns]
  by (cases "getSegmentAngles ns") (auto simp: selectWinner_def)

lemma spinWheel_nonempty:
  assumes "names st \<noteq> []"
  shows "\<exists>sel. selectWinner (getSegmentAngles (names st)) (finalRotation (rotation st) rnd) = Some sel
     \<and> spinWheel st rnd =
         st\<lparr>isSpinning := True, winner := None,
            rotation := js_add (rotation st) (totalRotation rnd),
            timers := timers st @ [sel]\<rparr>"
proof -
  from selectWinner_layout_defined [OF assms] obtain sel where
    "selectWinner (getSegmentAngles (names st)) (finalRotation (rotation st) rnd) = Some sel"
    by blast
  then show ?thesis using assms by (simp add: spinWheel_def)
qed

lemma spinWheel_empty: "names st = [] \<Longrightarrow> spinWheel st rnd = st"
  by (simp add: spinWheel_def)

lemma spinWheel_rotation:
  "rotation (spinWheel st rnd)
     = (if names st = [] then rotation st else js_add (rotation st) (totalRotation rnd))"
proof (cases "names st = []")
  case True
  then show ?thesis by (simp add: spinWheel_empty)
next
  case False
  from spinWheel_nonempty [OF False, of rnd] obtain sel where
    "spinWheel st rnd = st\<lparr>isSpinning := True, winner := None,
            rotation := js_add (rotation st) (totalRotation rnd), timers := timers st @ [sel]\<rparr>"
    by blast
  with False show ?thesis by simp
qed

lemma spinWheel_names: "names (spinWheel st rnd) = names st"
proof (cases "names st = []")
  case True
  then show ?thesis by (simp add: spinWheel_empty)
next
  case False
  from spinWheel_nonempty [OF False, of rnd] show ?thesis by auto
qed

lemma spinWheel_isSpinning: "names st \<noteq> [] \<Longrightarrow> isSpinning (spinWheel st rnd)"
  using spinWheel_nonempty [of st rnd] by auto

lemma isNumber_numerals: "isNumber 360" "isNumber 1800" "isNumber 2160"
  by (simp_all add: isNumber_def round64_numerals)

lemma baseRotation_eq: "baseRotation = 1800"
  by (simp add: baseRotation_def js_mul_def round64_numerals)

lemma randomAngle_range:
  assumes "0 \<le> rnd" and "rnd < 1"
  shows "0 \<le> randomAngle rnd \<and> randomAngle rnd \<le> 360"
proof -
  have "0 \<le> rnd * 360" "rnd * 360 \<le> 360" using assms by simp_all
  then show ?thesis
    unfolding randomAngle_def js_mul_def
    using round64_nonneg round64_le_number [OF isNumber_numerals(1)] by blast
qed

lemma totalRotation_range:
  assumes "0 \<le> rnd" and "rnd < 1"
  shows "5 * 360 \<le> totalRotation rnd \<and> totalRotation rnd \<le> 6 * 360"
proof -
  from randomAngle_range [OF assms]
  have "1800 \<le> 1800 + randomAngle rnd" "1800 + randomAngle rnd \<le> 2160" by simp_all
  then have "1800 \<le> round64 (1800 + randomAngle rnd)" "round64 (1800 + randomAngle rnd) \<le> 2160"
    using round64_ge_number [OF isNumber_numerals(2)] round64_le_number [OF isNumber_numerals(3)]
    by blast+
  then show ?thesis by (simp add: totalRotation_def js_add_def baseRotation_eq)
qed

lemma spinCommit_rotation: "rotation (spinCommit st) = rotation st"
  by (simp add: spinCommit_def split: list.splits)

lemma spinCommit_names_length: "length (names (spinCommit st)) = length (names st)"
  by (simp add: spinCommit_def incrementWins_def split: list.splits)

lemma addName_rotation: "rotation (addName st now) = rotation st"
  by (simp add: addName_def Let_def)

lemma handle_rotation_other:
  "(\<forall>rnd. e \<noteq> ClickSpin rnd) \<Longrightarrow> rotation (handle st e) = rotation st"
  by (cases e)
    (simp_all add: addName_rotation spinCommit_rotation removeName_def decreaseWins_def
      resetAllWins_def)

lemma spinWheel_rotation_ge:
  assumes "isNumber (rotation st)" and "0 \<le> rnd" and "rnd < 1"
  shows "rotation st \<le> rotation (spinWheel st rnd)"
proof (cases "names st = []")
  case True
  then show ?thesis by (simp add: spinWheel_empty)
next
  case False
  from totalRotation_range [OF assms(2,3)] have "rotation st \<le> rotation st + totalRotation rnd"
    by simp
  from round64_ge_number [OF assms(1) this] False show ?thesis
    by (simp add: spinWheel_rotation js_add_def)
qed

lemma spinWheel_isNumber_rotation:
  "isNumber (rotation st) \<Longrightarrow> isNumber (rotation (spinWheel st rnd))"
  by (simp add: spinWheel_rotation js_add_def isNumber_round64)

lemma handle_rotation_step:
  assumes "isNumber (rotation st)" and "wellFormed e"
  shows "rotation st \<le> rotation (handle st e) \<and> isNumber (rotation (handle st e))"
proof (cases "\<exists>rnd. e = ClickSpin rnd")
  case True
  then obtain rnd where e: "e = ClickSpin rnd" by blast
  with assms(2) have "0 \<le> rnd" "rnd < 1" by simp_all
  from spinWheel_rotation_ge [OF assms(1) this] spinWheel_isNumber_rotation [OF assms(1), of rnd]
    assms(1)
  show ?thesis by (simp add: e spinButtonClick_def)
next
  case False
  then have "rotation (handle st e) = rotation st" by (intro handle_rotation_other) simp
  then show ?thesis using assms(1) by simp
qed

lemma foldl_handle_rotation_mono:
  "isNumber (rotation st) \<Longrightarrow> list_all wellFormed es \<Longrightarrow>
     rotation st \<le> rotation (foldl handle st es)"
proof (induction es arbitrary: st)
  case Nil
  show ?case by simp
next
  case (Cons e es)
  then have "wellFormed e" "list_all wellFormed es" by simp_all
  from handle_rotation_step [OF Cons.prems(1) this(1)]
    Cons.IH [OF _ this(2), of "handle st e"]
  show ?case by simp
qed

lemma stateAB_fields:
  "names stateAB = [entrantA, entrantB]" "isSpinning stateAB = False"
  "rotation stateAB = 0" "timers stateAB = []" "winner stateAB = None"
  by (simp_all add: stateAB_def)

text \<open>
  The roster of \<open>A\<close> and \<open>B\<close>, rotation 0, and \<^verbatim>\<open>Math.random()\<close> returning \<open>0.75\<close>, a
  random angle of 270: the rotation becomes 2070, the tested angle is 90 and \<open>A\<close> wins.
\<close>

lemma finalRotation_three_quarters: "finalRotation 0 (3 / 4) = 270"
proof -
  have r: "round64 270 = 270" "round64 2070 = 2070" by (simp_all add: round64_eval)
  show ?thesis
    by (simp add: r finalRotation_def totalRotation_def baseRotation_eq randomAngle_def
        js_add_def js_mul_def js_rem_def js_trunc_def)
qed

lemma totalRotation_three_quarters: "totalRotation (3 / 4) = 2070"
proof -
  have r: "round64 270 = 270" "round64 2070 = 2070" by (simp_all add: round64_eval)
  show ?thesis
    by (simp add: r totalRotation_def baseRotation_eq randomAngle_def js_add_def js_mul_def)
qed

lemma segmentTopAngle_270: "segmentTopAngle 270 = 90"
proof -
  have r: "round64 90 = 90" by (simp add: round64_eval)
  show ?thesis by (simp add: r segmentTopAngle_def js_sub_def js_rem_def js_trunc_def)
qed

lemma spinWheel_stateAB:
  "spinWheel stateAB (3 / 4) =
     stateAB\<lparr>isSpinning := True, winner := None, rotation := 2070, timers := [segA]\<rparr>"
proof -
  have sel: "selectWinner [segA, segB] 270 = Some segA"
    by (simp add: selectWinner_def segmentTopAngle_270 atTop_def segA_def)
  have r: "round64 2070 = 2070" by (simp add: round64_eval)
  show ?thesis
    by (simp add: spinWheel_def stateAB_def layout_entrantA_entrantB
        finalRotation_three_quarters sel totalRotation_three_quarters js_add_def r)
qed

text \<open>
  C1, as stated, fails. Take the two halves \<open>segA\<close> and \<open>segB\<close>, the previous rotation 0
  and \<^verbatim>\<open>Math.random()\<close> returning \<open>0.5 + 2^-52\<close>. The random angle is
  \<open>s = 180 + 3 * 2^-45\<close>, less than 360, and the angle of the specification is
  \<open>180 - 3 * 2^-45\<close>, which the first half contains and the second half does not. In the
  code \<^verbatim>\<open>1800 + s\<close> rounds to 1980, the tested angle is 180, and the second half wins;
  so it does for \<^verbatim>\<open>spinWheel\<close> on the roster of \<open>A\<close> and \<open>B\<close>.
\<close>

theorem C1_exact_angle_counterexample:
  "coversCircle [segA, segB]
   \<and> randomAngle (1 / 2 + 1 / 2 ^ 52) = 180 + 3 / 2 ^ 45
   \<and> 0 \<le> randomAngle (1 / 2 + 1 / 2 ^ 52) \<and> randomAngle (1 / 2 + 1 / 2 ^ 52) < 360
   \<and> pointerAngleInWheelFrame 0 (randomAngle (1 / 2 + 1 / 2 ^ 52)) = 180 - 3 / 2 ^ 45
   \<and> startAngle segA \<le> pointerAngleInWheelFrame 0 (randomAngle (1 / 2 + 1 / 2 ^ 52))
   \<and> pointerAngleInWheelFrame 0 (randomAngle (1 / 2 + 1 / 2 ^ 52)) < endAngle segA
   \<and> \<not> startAngle segB \<le> pointerAngleInWheelFrame 0 (randomAngle (1 / 2 + 1 / 2 ^ 52))
   \<and> selectWinner [segA, segB] (finalRotation 0 (1 / 2 + 1 / 2 ^ 52)) = Some segB
   \<and> segB \<noteq> segA
   \<and> timers (spinWheel stateAB (1 / 2 + 1 / 2 ^ 52)) = [segB]"
proof -
  let ?r = "1 / 2 + 1 / 2 ^ 52 :: real"
  have c: "coversCircle [segA, segB]" by (simp add: coversCircle_def segA_def segB_def)
  have s: "randomAngle ?r = 180 + 3 / 2 ^ 45"
    by (simp add: randomAngle_def js_mul_def round64_eval)
  have t: "totalRotation ?r = 1980"
    unfolding totalRotation_def js_add_def baseRotation_eq s by (simp add: round64_eval)
  have fr: "finalRotation 0 ?r = 180"
    unfolding finalRotation_def js_add_def t
    by (simp add: round64_eval js_rem_def js_trunc_def)
  have top: "segmentTopAngle 180 = 180"
    by (simp add: segmentTopAngle_def js_sub_def round64_numerals js_rem_def js_trunc_def)
  have sel: "selectWinner [segA, segB] (finalRotation 0 ?r) = Some segB"
    unfolding fr by (simp add: selectWinner_def top atTop_def segA_def segB_def)
  have p: "pointerAngleInWheelFrame 0 (randomAngle ?r) = 180 - 3 / 2 ^ 45"
    unfolding s by (simp add: pointerAngleInWheelFrame_def real_mod_def)
  have a: "startAngle segA \<le> pointerAngleInWheelFrame 0 (randomAngle ?r)"
    "pointerAngleInWheelFrame 0 (randomAngle ?r) < endAngle segA"
    "\<not> startAngle segB \<le> pointerAngleInWheelFrame 0 (randomAngle ?r)"
    unfolding p by (simp_all add: segA_def segB_def)
  have range: "0 \<le> randomAngle ?r" "randomAngle ?r < 360" unfolding s by simp_all
  have d: "segB \<noteq> segA" by (simp add: segA_def segB_def)
  have sp: "timers (spinWheel stateAB ?r) = [segB]"
    using sel by (simp add: spinWheel_def stateAB_def layout_entrantA_entrantB)
  from c s range p a sel d sp show ?thesis by (intro conjI)
qed

text \<open>
  C1, amended. The angle that the loop tests is computed in binary64:
  \<open>(360 - ((p + (1800 + r * 360)) % 360)) % 360\<close> for the previous rotation \<open>p\<close> and the
  value \<open>r\<close> of \<^verbatim>\<open>Math.random()\<close> in \<open>[0, 1)\<close>, where every product, sum and
  difference is rounded. It lies in \<open>[0, 360)\<close>. For every partition of the circle the
  winner that the spin selects is the first segment of the list whose interval
  \<open>[startAngle, endAngle)\<close> contains this angle. So it is for \<^verbatim>\<open>spinWheel\<close> on a
  roster that is not empty, when some segment of the layout contains the angle: the
  commit of the first such segment is scheduled.
\<close>

theorem C1_winner_first_containing_segment:
  assumes "0 \<le> rnd" and "rnd < 1"
  shows "segmentTopAngle (finalRotation p rnd)
     = js_rem (round64 (360 - js_rem (round64 (p + round64 (1800 + round64 (rnd * 360)))) 360)) 360
   \<and> 0 \<le> segmentTopAngle (finalRotation p rnd) \<and> segmentTopAngle (finalRotation p rnd) < 360
   \<and> (coversCircle segs \<longrightarrow>
        (\<exists>i < length segs.
           startAngle (segs ! i) \<le> segmentTopAngle (finalRotation p rnd)
         \<and> segmentTopAngle (finalRotation p rnd) < endAngle (segs ! i)
         \<and> (\<forall>j < i. \<not> (startAngle (segs ! j) \<le> segmentTopAngle (finalRotation p rnd)
                         \<and> segmentTopAngle (finalRotation p rnd) < endAngle (segs ! j)))
         \<and> selectWinner segs (finalRotation p rnd) = Some (segs ! i)))
   \<and> (names st \<noteq> []
        \<and> (\<exists>s \<in> set (getSegmentAngles (names st)).
              startAngle s \<le> segmentTopAngle (finalRotation (rotation st) rnd)
            \<and> segmentTopAngle (finalRotation (rotation st) rnd) < endAngle s) \<longrightarrow>
        (\<exists>i < length (names st).
           startAngle (getSegmentAngles (names st) ! i)
             \<le> segmentTopAngle (finalRotation (rotation st) rnd)
         \<and> segmentTopAngle (finalRotation (rotation st) rnd)
             < endAngle (getSegmentAngles (names st) ! i)
         \<and> (\<forall>j < i. \<not> (startAngle (getSegmentAngles (names st) ! j)
                           \<le> segmentTopAngle (finalRotation (rotation st) rnd)
                         \<and> segmentTopAngle (finalRotation (rotation st) rnd)
                           < endAngle (getSegmentAngles (names st) ! j)))
         \<and> timers (spinWheel st rnd) = timers st @ [getSegmentAngles (names st) ! i]))"
proof (intro conjI impI)
  show "segmentTopAngle (finalRotation p rnd)
     = js_rem (round64 (360 - js_rem (round64 (p + round64 (1800 + round64 (rnd * 360)))) 360)) 360"
    by (rule segmentTopAngle_unfold)
  show "0 \<le> segmentTopAngle (finalRotation p rnd)" "segmentTopAngle (finalRotation p rnd) < 360"
    using segmentTopAngle_range [of p rnd] by simp_all
next
  assume "coversCircle segs"
  from selectWinner_first_match [OF this, of p rnd]
  show "\<exists>i < length segs.
           startAngle (segs ! i) \<le> segmentTopAngle (finalRotation p rnd)
         \<and> segmentTopAngle (finalRotation p rnd) < endAngle (segs ! i)
         \<and> (\<forall>j < i. \<not> (startAngle (segs ! j) \<le> segmentTopAngle (finalRotation p rnd)
                         \<and> segmentTopAngle (finalRotation p rnd) < endAngle (segs ! j)))
         \<and> selectWinner segs (finalRotation p rnd) = Some (segs ! i)"
    by (simp add: atTop_def)
next
  let ?segs = "getSegmentAngles (names st)"
  let ?t = "segmentTopAngle (finalRotation (rotation st) rnd)"
  assume a: "names st \<noteq> [] \<and> (\<exists>s \<in> set ?segs. startAngle s \<le> ?t \<and> ?t < endAngle s)"
  then have ne: "names st \<noteq> []" and ex: "\<exists>s \<in> set ?segs. atTop ?t s"
    by (simp_all add: atTop_def)
  from selectWinner_first_of_some [OF ex]
  obtain i where i: "i < length ?segs" "atTop ?t (?segs ! i)"
    "\<forall>j < i. \<not> atTop ?t (?segs ! j)"
    "selectWinner ?segs (finalRotation (rotation st) rnd) = Some (?segs ! i)"
    by blast
  from spinWheel_nonempty [OF ne, of rnd] i(4)
  have "timers (spinWheel st rnd) = timers st @ [?segs ! i]" by auto
  with i(1-3) length_getSegmentAngles [of "names st"]
  show "\<exists>i < length (names st).
           startAngle (?segs ! i) \<le> ?t \<and> ?t < endAngle (?segs ! i)
         \<and> (\<forall>j < i. \<not> (startAngle (?segs ! j) \<le> ?t \<and> ?t < endAngle (?segs ! j)))
         \<and> timers (spinWheel st rnd) = timers st @ [?segs ! i]"
    by (auto simp: atTop_def)
qed

text \<open>
  The two halves, previous rotation 0 and \<^verbatim>\<open>Math.random()\<close> returning \<open>0.75\<close>: the
  tested angle is 90 and the first half wins.
\<close>

theorem C1_winner_witness:
  "(0::real) \<le> 3 / 4 \<and> (3::real) / 4 < 1
   \<and> coversCircle [segA, segB]
   \<and> segmentTopAngle (finalRotation 0 (3 / 4)) = 90
   \<and> selectWinner [segA, segB] (finalRotation 0 (3 / 4)) = Some segA
   \<and> timers (spinWheel stateAB (3 / 4)) = [segA]"
proof -
  have r: "(0::real) \<le> 3 / 4" "(3::real) / 4 < 1" by simp_all
  have c: "coversCircle [segA, segB]" by (simp add: coversCircle_def segA_def segB_def)
  have t: "segmentTopAngle (finalRotation 0 (3 / 4)) = 90"
    by (simp only: finalRotation_three_quarters segmentTopAngle_270)
  from C1_winner_first_containing_segment [OF r, of 0 "[segA, segB]"] c
  obtain i where i: "i < length [segA, segB]"
    "segmentTopAngle (finalRotation 0 (3 / 4)) < endAngle ([segA, segB] ! i)"
    "startAngle ([segA, segB] ! i) \<le> segmentTopAngle (finalRotation 0 (3 / 4))"
    "selectWinner [segA, segB] (finalRotation 0 (3 / 4)) = Some ([segA, segB] ! i)"
    by blast
  have "i = 0"
  proof (rule ccontr)
    assume "i \<noteq> 0"
    with i(1) have "i = 1" by simp
    with i(3) show False by (simp add: t segB_def)
  qed
  with i(4) have w: "selectWinner [segA, segB] (finalRotation 0 (3 / 4)) = Some segA" by simp
  have sp: "timers (spinWheel stateAB (3 / 4)) = [segA]"
    by (simp add: spinWheel_stateAB stateAB_fields)
  from r c t w sp show ?thesis by (intro conjI)
qed

text \<open>
  C6, as stated, fails, in both bounds. On the roster of \<open>A\<close> and \<open>B\<close> at rotation 0,
  \<^verbatim>\<open>Math.random()\<close> returning \<open>1 - 2^-52\<close> gives a random angle below 360, but
  \<^verbatim>\<open>1800 + randomAngle\<close> rounds to 2160, and the rotation grows by exactly \<open>6 * 360\<close>.
  After a first spin with \<^verbatim>\<open>Math.random()\<close> returning \<open>2^-50\<close> the rotation is
  \<open>1800 + 2^-42\<close>; a second spin, with \<^verbatim>\<open>Math.random()\<close> returning 0, makes it 3600,
  which is less than \<open>5 * 360\<close> more.
\<close>

theorem C6_bounds_counterexample:
  "names stateAB \<noteq> []
   \<and> (0::real) \<le> 1 - 1 / 2 ^ 52 \<and> (1::real) - 1 / 2 ^ 52 < 1
   \<and> randomAngle (1 - 1 / 2 ^ 52) < 360
   \<and> rotation (spinWheel stateAB (1 - 1 / 2 ^ 52)) - rotation stateAB = 6 * 360
   \<and> names (spinCommit (spinWheel stateAB (1 / 2 ^ 50))) \<noteq> []
   \<and> rotation (spinCommit (spinWheel stateAB (1 / 2 ^ 50))) = 1800 + 1 / 2 ^ 42
   \<and> rotation (spinWheel (spinCommit (spinWheel stateAB (1 / 2 ^ 50))) 0) = 3600
   \<and> rotation (spinWheel (spinCommit (spinWheel stateAB (1 / 2 ^ 50))) 0)
       - rotation (spinCommit (spinWheel stateAB (1 / 2 ^ 50))) < 5 * 360"
proof -
  let ?r = "1 - 1 / 2 ^ 52 :: real"
  let ?st1 = "spinCommit (spinWheel stateAB (1 / 2 ^ 50))"
  have ne: "names stateAB \<noteq> []" by (simp add: stateAB_fields)
  have s: "randomAngle ?r = 360 - 1 / 2 ^ 44"
    by (simp add: randomAngle_def js_mul_def round64_eval)
  have t: "totalRotation ?r = 2160"
    unfolding totalRotation_def js_add_def baseRotation_eq s by (simp add: round64_eval)
  have a: "rotation (spinWheel stateAB ?r) - rotation stateAB = 6 * 360"
    unfolding spinWheel_rotation t by (simp add: stateAB_fields js_add_def round64_numerals)
  have s1: "randomAngle (1 / 2 ^ 50) = 360 / 2 ^ 50"
    by (simp add: randomAngle_def js_mul_def round64_eval)
  have t1: "totalRotation (1 / 2 ^ 50) = 1800 + 1 / 2 ^ 42"
    unfolding totalRotation_def js_add_def baseRotation_eq s1 by (simp add: round64_eval)
  have r1: "rotation ?st1 = 1800 + 1 / 2 ^ 42"
    unfolding spinCommit_rotation spinWheel_rotation t1
    by (simp add: stateAB_fields js_add_def round64_eval)
  have "length (names ?st1) = 2"
    by (simp only: spinCommit_names_length spinWheel_names stateAB_fields) simp
  then have n1: "names ?st1 \<noteq> []" by auto
  have t0: "totalRotation 0 = 1800"
    by (simp add: totalRotation_def js_add_def baseRotation_eq randomAngle_def js_mul_def
        round64_zero round64_numerals)
  have r2: "rotation (spinWheel ?st1 0) = 3600"
    using n1 unfolding spinWheel_rotation r1 t0 by (simp add: js_add_def round64_eval)
  have b: "rotation (spinWheel ?st1 0) - rotation ?st1 < 5 * 360"
    unfolding r2 r1 by simp
  have rng: "(0::real) \<le> ?r" "?r < 1" "randomAngle ?r < 360" unfolding s by simp_all
  from ne rng a n1 r1 r2 b show ?thesis by (intro conjI)
qed

text \<open>
  C6, amended. For every spin of a roster that is not empty, with \<^verbatim>\<open>Math.random()\<close>
  in \<open>[0, 1)\<close>, the amount \<^verbatim>\<open>totalRotation\<close> that is added is at least \<open>5 * 360\<close> and at
  most \<open>6 * 360\<close>, and the new rotation is the binary64 sum of the previous rotation and
  this amount: it lies between the binary64 sums of the previous rotation with
  \<open>5 * 360\<close> and with \<open>6 * 360\<close>, and it is not below the previous rotation. The
  rotation is never reset: the commit of the spin leaves it as it is, so does every
  event that is not a click on the spin button, and over any sequence of events the
  rotation does not decrease.
\<close>

theorem C6_rotation_growth:
  assumes "names st \<noteq> []" and "0 \<le> rnd" and "rnd < 1"
  shows "rotation (spinWheel st rnd) = round64 (rotation st + totalRotation rnd)
   \<and> 5 * 360 \<le> totalRotation rnd \<and> totalRotation rnd \<le> 6 * 360
   \<and> round64 (rotation st + 5 * 360) \<le> rotation (spinWheel st rnd)
   \<and> rotation (spinWheel st rnd) \<le> round64 (rotation st + 6 * 360)
   \<and> (isNumber (rotation st) \<longrightarrow> rotation st \<le> rotation (spinWheel st rnd))
   \<and> rotation (spinCommit (spinWheel st rnd)) = rotation (spinWheel st rnd)
   \<and> (\<forall>s e. (\<forall>r. e \<noteq> ClickSpin r) \<longrightarrow> rotation (handle s e) = rotation s)
   \<and> (\<forall>s es. isNumber (rotation s) \<and> list_all wellFormed es \<longrightarrow>
         rotation s \<le> rotation (foldl handle s es))"
proof -
  have eq: "rotation (spinWheel st rnd) = round64 (rotation st + totalRotation rnd)"
    using assms(1) by (simp add: spinWheel_rotation js_add_def)
  from totalRotation_range [OF assms(2,3)]
  have tr: "5 * 360 \<le> totalRotation rnd" "totalRotation rnd \<le> 6 * 360" by simp_all
  have lo: "round64 (rotation st + 5 * 360) \<le> rotation (spinWheel st rnd)"
    unfolding eq using tr(1) by (intro round64_mono) simp
  have hi: "rotation (spinWheel st rnd) \<le> round64 (rotation st + 6 * 360)"
    unfolding eq using tr(2) by (intro round64_mono) simp
  have ge: "isNumber (rotation st) \<longrightarrow> rotation st \<le> rotation (spinWheel st rnd)"
    using spinWheel_rotation_ge [OF _ assms(2,3)] by blast
  have cm: "rotation (spinCommit (spinWheel st rnd)) = rotation (spinWheel st rnd)"
    by (rule spinCommit_rotation)
  have ot: "\<forall>s e. (\<forall>r. e \<noteq> ClickSpin r) \<longrightarrow> rotation (handle s e) = rotation s"
    using handle_rotation_other by blast
  have sq: "\<forall>s es. isNumber (rotation s) \<and> list_all wellFormed es \<longrightarrow>
         rotation s \<le> rotation (foldl handle s es)"
    using foldl_handle_rotation_mono by blast
  from eq tr lo hi ge cm ot sq show ?thesis by (intro conjI)
qed

theorem C6_rotation_witness:
  "names stateAB \<noteq> [] \<and> (0::real) \<le> 3 / 4 \<and> (3::real) / 4 < 1
   \<and> isNumber (rotation stateAB)
   \<and> totalRotation (3 / 4) = 2070
   \<and> rotation (spinWheel stateAB (3 / 4)) = 2070
   \<and> rotation stateAB \<le> rotation (spinWheel stateAB (3 / 4))
   \<and> rotation (foldl handle stateAB [ClickSpin (3 / 4), TimeoutFires, ClickReset]) = 2070"
proof -
  have ne: "names stateAB \<noteq> []" by (simp add: stateAB_fields)
  have r: "(0::real) \<le> 3 / 4" "(3::real) / 4 < 1" by simp_all
  have n: "isNumber (rotation stateAB)" by (simp add: stateAB_fields isNumber_zero)
  have ev: "rotation (spinWheel stateAB (3 / 4)) = 2070" by (simp add: spinWheel_stateAB)
  have run: "rotation (foldl handle stateAB [ClickSpin (3 / 4), TimeoutFires, ClickReset]) = 2070"
    by (simp add: spinButtonClick_def spinWheel_stateAB spinCommit_def resetAllWins_def
        stateAB_fields)
  have g: "rotation stateAB \<le> rotation (spinWheel stateAB (3 / 4))"
    using C6_rotation_growth [OF ne r] n by blast
  from ne r n totalRotation_three_quarters ev g run show ?thesis by (intro conjI)
qed

text \<open>
  C7. A spin requested on an empty roster is a no-op: \<^verbatim>\<open>spinWheel\<close> returns the state
  as it is (so does the click on the disabled button); the rotation and the displayed
  winner are unchanged and no commit is scheduled, so no winner is produced.
\<close>

theorem C7_empty_roster_no_op:
  assumes "names st = []"
  shows "spinWheel st rnd = st \<and> handle st (ClickSpin rnd) = st
   \<and> rotation (spinWheel st rnd) = rotation st
   \<and> winner (spinWheel st rnd) = winner st
   \<and> timers (spinWheel st rnd) = timers st
   \<and> names (spinWheel st rnd) = []"
  using assms by (simp add: spinWheel_empty spinButtonClick_def)

theorem C7_empty_roster_witness:
  "names initial_state = [] \<and> spinWheel initial_state (1 / 2) = initial_state
   \<and> handle initial_state (ClickSpin (1 / 2)) = initial_state"
proof -
  have e: "names initial_state = []" by (simp add: initial_state_def)
  from C7_empty_roster_no_op [OF e, of "1 / 2"] e show ?thesis by simp
qed

text \<open>
  C9. A click on the spin button while a spin is in flight leaves the whole state as it
  is, and requesting a spin twice in a row is the same as requesting it once: the
  second request changes neither the roster, nor the rotation, nor the winner. The guard
  is the \<^verbatim>\<open>disabled\<close> attribute of the button; \<^verbatim>\<open>spinWheel\<close> itself, which only
  the button calls, does not test \<^verbatim>\<open>isSpinning\<close> (lemma \<open>spinWheel_not_guarded\<close>).
\<close>

theorem C9_second_request_ignored:
  "(isSpinning st \<longrightarrow> spinButtonClick st rnd = st)
   \<and> spinButtonClick (spinButtonClick st r1) r2 = spinButtonClick st r1
   \<and> handle (handle st (ClickSpin r1)) (ClickSpin r2) = handle st (ClickSpin r1)"
proof -
  have a: "isSpinning st \<longrightarrow> spinButtonClick st rnd = st" by (simp add: spinButtonClick_def)
  have b: "spinButtonClick (spinButtonClick st r1) r2 = spinButtonClick st r1"
  proof (cases "length (names st) = 0 \<or> isSpinning st")
    case True
    then show ?thesis by (simp add: spinButtonClick_def)
  next
    case False
    then have "names st \<noteq> []" by simp
    from spinWheel_isSpinning [OF this, of r1] False show ?thesis
      by (simp add: spinButtonClick_def)
  qed
  from a b show ?thesis by simp
qed

theorem C9_second_request_witness:
  "isSpinning (spinWheel stateAB (3 / 4))
   \<and> spinButtonClick (spinWheel stateAB (3 / 4)) (1 / 2) = spinWheel stateAB (3 / 4)
   \<and> rotation (spinButtonClick (spinWheel stateAB (3 / 4)) (1 / 2)) = 2070"
proof -
  have sp: "isSpinning (spinWheel stateAB (3 / 4))" by (simp add: spinWheel_stateAB)
  have ev: "rotation (spinWheel stateAB (3 / 4)) = 2070" by (simp add: spinWheel_stateAB)
  from C9_second_request_ignored [of "spinWheel stateAB (3 / 4)" "1 / 2"] sp ev
  show ?thesis by simp
qed

text \<open>
  \<^verbatim>\<open>spinWheel\<close> called on a state that is spinning would spin again: at rotation 0
  the rotation becomes at least 1800.
\<close>

lemma spinWheel_not_guarded:
  assumes "names st \<noteq> []" and "rotation st = 0" and "0 \<le> rnd" and "rnd < 1"
  shows "rotation (spinWheel st rnd) \<noteq> rotation st"
proof -
  from totalRotation_range [OF assms(3,4)] have "1800 \<le> 0 + totalRotation rnd" by simp
  from round64_ge_number [OF isNumber_numerals(2) this] assms(1,2) show ?thesis
    by (simp add: spinWheel_rotation js_add_def)
qed

text \<open>
  Through the events of the interface there is never more than one spin in flight.
\<close>

lemma addName_spin_fields:
  "isSpinning (addName st now) = isSpinning st" "timers (addName st now) = timers st"
  by (simp_all add: addName_def Let_def)

lemma handle_oneSpinInFlight:
  assumes "oneSpinInFlight st"
  shows "oneSpinInFlight (handle st e)"
proof (cases e)
  case (ClickSpin rnd)
  show ?thesis
  proof (cases "length (names st) = 0 \<or> isSpinning st")
    case True
    with assms show ?thesis by (simp add: ClickSpin spinButtonClick_def)
  next
    case False
    then have ne: "names st \<noteq> []" and idle: "\<not> isSpinning st" by simp_all
    from spinWheel_nonempty [OF ne, of rnd] obtain sel where
      "spinWheel st rnd = st\<lparr>isSpinning := True, winner := None,
         rotation := js_add (rotation st) (totalRotation rnd), timers := timers st @ [sel]\<rparr>"
      by blast
    with assms idle False show ?thesis
      by (simp add: ClickSpin spinButtonClick_def oneSpinInFlight_def)
  qed
next
  case TimeoutFires
  with assms show ?thesis
    by (cases "timers st") (auto simp: spinCommit_def oneSpinInFlight_def split: if_splits)
qed (use assms in \<open>auto simp: oneSpinInFlight_def addName_spin_fields removeName_def
      decreaseWins_def resetAllWins_def split: if_splits\<close>)

lemma initial_oneSpinInFlight: "oneSpinInFlight initial_state"
  by (simp add: oneSpinInFlight_def initial_state_def)

lemma foldl_handle_oneSpinInFlight:
  "oneSpinInFlight st \<Longrightarrow> oneSpinInFlight (foldl handle st es)"
  by (induction es arbitrary: st) (simp_all add: handle_oneSpinInFlight)

text \<open>
  C5. The outcome of a spin is a function of the roster, the previous rotation and the
  random number alone: two states with the same roster and the same rotation, whatever
  their other fields, get the same new rotation and schedule the same winning segment
  for the same random number; when no other commit is pending, the commits then
  display the same winner and produce the same roster.
\<close>

theorem C5_spin_deterministic:
  assumes "names st1 = names st2" and "rotation st1 = rotation st2"
  shows "rotation (spinWheel st1 rnd) = rotation (spinWheel st2 rnd)
   \<and> scheduled st1 (spinWheel st1 rnd) = scheduled st2 (spinWheel st2 rnd)
   \<and> (timers st1 = [] \<and> timers st2 = [] \<and> names st1 \<noteq> [] \<longrightarrow>
        winner (spinCommit (spinWheel st1 rnd)) = winner (spinCommit (spinWheel st2 rnd))
      \<and> names (spinCommit (spinWheel st1 rnd)) = names (spinCommit (spinWheel st2 rnd)))"
proof (cases "names st1 = []")
  case True
  with assms show ?thesis by (simp add: spinWheel_empty scheduled_def)
next
  case False
  with assms(1) have ne2: "names st2 \<noteq> []" by simp
  from spinWheel_nonempty [OF False, of rnd] spinWheel_nonempty [OF ne2, of rnd] assms
  show ?thesis by (auto simp: scheduled_def spinCommit_def)
qed

theorem C5_spin_witness:
  "names stateAB = names (stateAB\<lparr>newName := ''C'', winner := Some ''B''\<rparr>)
   \<and> rotation stateAB = rotation (stateAB\<lparr>newName := ''C'', winner := Some ''B''\<rparr>)
   \<and> stateAB \<noteq> stateAB\<lparr>newName := ''C'', winner := Some ''B''\<rparr>
   \<and> rotation (spinWheel (stateAB\<lparr>newName := ''C'', winner := Some ''B''\<rparr>) (3 / 4)) = 2070
   \<and> scheduled (stateAB\<lparr>newName := ''C'', winner := Some ''B''\<rparr>)
        (spinWheel (stateAB\<lparr>newName := ''C'', winner := Some ''B''\<rparr>) (3 / 4)) = [segA]"
proof -
  let ?st = "stateAB\<lparr>newName := ''C'', winner := Some ''B''\<rparr>"
  have n: "names stateAB = names ?st" by simp
  have r: "rotation stateAB = rotation ?st" by simp
  have d: "stateAB \<noteq> ?st" by (simp add: stateAB_def)
  have ev: "rotation (spinWheel stateAB (3 / 4)) = 2070"
    "scheduled stateAB (spinWheel stateAB (3 / 4)) = [segA]"
    by (simp_all add: spinWheel_stateAB scheduled_def stateAB_fields)
  have same: "rotation (spinWheel stateAB (3 / 4)) = rotation (spinWheel ?st (3 / 4))"
    "scheduled stateAB (spinWheel stateAB (3 / 4)) = scheduled ?st (spinWheel ?st (3 / 4))"
    using C5_spin_deterministic [OF n r, of "3 / 4"] by blast+
  from same ev have "rotation (spinWheel ?st (3 / 4)) = 2070"
    "scheduled ?st (spinWheel ?st (3 / 4)) = [segA]" by simp_all
  with n r d show ?thesis by (intro conjI)
qed

text \<open>
  C8 does not hold of the code: \<^verbatim>\<open>addName\<close> compares the text as typed with the stored
  names, but stores the trimmed text. With the entrant \<open>Bob\<close> in the roster and the text
  \<open>Bob\<close> followed by a space in the field, the add is accepted (by the button and by
  the Enter key), and the roster then holds the name \<open>Bob\<close> twice.
\<close>

theorem C8_trimmed_duplicate_is_added:
  "names (addName stateBob ''2'')
     = [\<lparr>pid = ''1'', name = ''Bob'', wins = 0\<rparr>, \<lparr>pid = ''2'', name = ''Bob'', wins = 0\<rparr>]
   \<and> \<not> distinct (map (\<lambda>person. toLowerCase (name person)) (names (addName stateBob ''2'')))
   \<and> handle stateBob (ClickAdd ''2'') = addName stateBob ''2''
   \<and> handle stateBob (PressEnter ''2'') = addName stateBob ''2''"
  by (simp add: addName_def stateBob_def trim_def isWhiteSpace_def toLowerCase_def lowerChar_def)

text \<open>
  The check of \<^verbatim>\<open>addName\<close> does reject a text that differs from a stored name in case
  only.
\<close>

lemma addName_rejects_other_case:
  "addName (stateBob\<lparr>newName := ''bOB''\<rparr>) ''2'' = stateBob\<lparr>newName := ''bOB''\<rparr>"
proof -
  have "toLowerCase ''Bob'' = toLowerCase ''bOB''" by code_simp
  then show ?thesis by (simp add: addName_def stateBob_def)
qed

lemma addName_rejects_match:
  "list_ex (\<lambda>person. toLowerCase (name person) = toLowerCase (newName st)) (names st)
   \<Longrightarrow> addName st now = st"
  by (simp add: addName_def)

section \<open>The commit of a spin\<close>

lemma round64_succ_int: "\<bar>n\<bar> < 2 ^ 53 \<Longrightarrow> round64 (of_int n + 1) = of_int n + 1"
  using round64_of_int [of "n + 1"] by simp

lemma round64_two_power_53_succ:
  "round64 (2 ^ 53 + 1) = 2 ^ 53" "round64 9007199254740993 = 9007199254740992"
  by (simp_all add: round64_eval)

lemma map_update_distinct:
  assumes "distinct (map f xs)" and "i < length xs"
  shows "map (\<lambda>x. if f x = f (xs ! i) then g x else x) xs = xs[i := g (xs ! i)]"
proof (rule nth_equalityI)
  show "length (map (\<lambda>x. if f x = f (xs ! i) then g x else x) xs) = length (xs[i := g (xs ! i)])"
    by simp
next
  fix j assume "j < length (map (\<lambda>x. if f x = f (xs ! i) then g x else x) xs)"
  then have j: "j < length xs" by simp
  have "f (xs ! j) = f (xs ! i) \<longleftrightarrow> j = i"
    using nth_eq_iff_index_eq [OF assms(1), of j i] j assms(2) by simp
  then show "map (\<lambda>x. if f x = f (xs ! i) then g x else x) xs ! j = xs[i := g (xs ! i)] ! j"
    using j assms(2) by (cases "j = i") simp_all
qed

text \<open>The spin of the roster of one entrant with \<open>2 ^ 53\<close> wins, and its commit.\<close>

lemma commit_stateMany:
  "names (spinCommit (spinWheel stateMany (3 / 4))) = [\<lparr>pid = ''1'', name = ''A'', wins = 9007199254740992\<rparr>]"
  "winner (spinCommit (spinWheel stateMany (3 / 4))) = Some ''A''"
proof -
  let ?p = "\<lparr>pid = ''1'', name = ''A'', wins = 9007199254740992 :: real\<rparr>"
  have ne: "names stateMany \<noteq> []" by (simp add: stateMany_def)
  from spinWheel_nonempty [OF ne, of "3 / 4"] obtain sel where
    sel: "selectWinner (getSegmentAngles (names stateMany))
            (finalRotation (rotation stateMany) (3 / 4)) = Some sel"
    and sp: "spinWheel stateMany (3 / 4) =
         stateMany\<lparr>isSpinning := True, winner := None,
            rotation := js_add (rotation stateMany) (totalRotation (3 / 4)),
            timers := timers stateMany @ [sel]\<rparr>"
    by blast
  have len: "length (getSegmentAngles [?p]) = 1" by (simp add: length_getSegmentAngles)
  then obtain s where s: "getSegmentAngles [?p] = [s]"
    by (cases "getSegmentAngles [?p]") auto
  from getSegmentAngles_nth [of 0 "[?p]"] have f: "pid s = ''1''" "name s = ''A''"
    by (simp_all add: s)
  have "sel = s"
    using sel by (simp add: stateMany_def s selectWinner_def split: if_splits)
  with f have "pid sel = ''1''" "name sel = ''A''" by simp_all
  then show "names (spinCommit (spinWheel stateMany (3 / 4))) = [?p]"
    "winner (spinCommit (spinWheel stateMany (3 / 4))) = Some ''A''"
    unfolding sp
    by (simp_all add: spinCommit_def incrementWins_def stateMany_def js_add_def
        round64_two_power_53_succ)
qed

text \<open>Two entrants added with the same value of \<^verbatim>\<open>Date.now()\<close>, a spin and its commit.\<close>

lemma commit_same_id:
  "names (foldl handle initial_state
      [ChangeInput ''a'', PressEnter ''7'', ChangeInput ''b'', PressEnter ''7'',
       ClickSpin (3 / 4), TimeoutFires])
     = [\<lparr>pid = ''7'', name = ''a'', wins = 1\<rparr>, \<lparr>pid = ''7'', name = ''b'', wins = 1\<rparr>]"
  "winner (foldl handle initial_state
      [ChangeInput ''a'', PressEnter ''7'', ChangeInput ''b'', PressEnter ''7'',
       ClickSpin (3 / 4), TimeoutFires]) = Some ''a''"
proof -
  let ?a = "\<lparr>pid = ''7'', name = ''a'', wins = 0 :: real\<rparr>"
  let ?b = "\<lparr>pid = ''7'', name = ''b'', wins = 0 :: real\<rparr>"
  let ?st = "\<lparr>names = [?a, ?b], newName = [], isSpinning = False, winner = None,
              rotation = 0, timers = []\<rparr>"
  have added: "foldl handle initial_state
      [ChangeInput ''a'', PressEnter ''7'', ChangeInput ''b'', PressEnter ''7''] = ?st"
    by (simp add: initial_state_def addName_def trim_def isWhiteSpace_def toLowerCase_def
        lowerChar_def)
  have ne: "names ?st \<noteq> []" by simp
  from spinWheel_nonempty [OF ne, of "3 / 4"] obtain sel where
    sel: "selectWinner (getSegmentAngles (names ?st)) (finalRotation (rotation ?st) (3 / 4))
            = Some sel"
    and sp: "spinWheel ?st (3 / 4) =
         ?st\<lparr>isSpinning := True, winner := None,
            rotation := js_add (rotation ?st) (totalRotation (3 / 4)),
            timers := timers ?st @ [sel]\<rparr>"
    by blast
  have lay: "map startAngle (getSegmentAngles [?a, ?b]) = [0, 180]"
    "map endAngle (getSegmentAngles [?a, ?b]) = [180, 360]"
    by (simp_all add: getSegmentAngles_def calculateWeightedSegments_def addWeight_def
        weightOf_examples totalWeightOf_def js_add_def js_mul_def js_div_def round64_eval)
  have len: "length (getSegmentAngles [?a, ?b]) = 2" by (simp add: length_getSegmentAngles)
  then obtain s0 s1 where s: "getSegmentAngles [?a, ?b] = [s0, s1]"
    by (cases "getSegmentAngles [?a, ?b]"; cases "tl (getSegmentAngles [?a, ?b])") auto
  from lay have s0: "startAngle s0 = 0" "endAngle s0 = 180" by (simp_all add: s)
  from getSegmentAngles_nth [of 0 "[?a, ?b]"] have f: "pid s0 = ''7''" "name s0 = ''a''"
    by (simp_all add: s)
  have "sel = s0"
    using sel
    by (simp add: s selectWinner_def finalRotation_three_quarters segmentTopAngle_270
        atTop_def s0)
  with f have "pid sel = ''7''" "name sel = ''a''" by simp_all
  then have c: "names (spinCommit (spinWheel ?st (3 / 4)))
      = [\<lparr>pid = ''7'', name = ''a'', wins = 1\<rparr>, \<lparr>pid = ''7'', name = ''b'', wins = 1\<rparr>]"
    "winner (spinCommit (spinWheel ?st (3 / 4))) = Some ''a''"
    unfolding sp
    by (simp_all add: spinCommit_def incrementWins_def js_add_def round64_numerals)
  have run: "foldl handle initial_state
      [ChangeInput ''a'', PressEnter ''7'', ChangeInput ''b'', PressEnter ''7'',
       ClickSpin (3 / 4), TimeoutFires]
      = spinCommit (spinWheel (foldl handle initial_state
          [ChangeInput ''a'', PressEnter ''7'', ChangeInput ''b'', PressEnter ''7'']) (3 / 4))"
    unfolding added by (simp add: initial_state_def addName_def trim_def isWhiteSpace_def
        toLowerCase_def lowerChar_def spinButtonClick_def)
  show "names (foldl handle initial_state
      [ChangeInput ''a'', PressEnter ''7'', ChangeInput ''b'', PressEnter ''7'',
       ClickSpin (3 / 4), TimeoutFires])
     = [\<lparr>pid = ''7'', name = ''a'', wins = 1\<rparr>, \<lparr>pid = ''7'', name = ''b'', wins = 1\<rparr>]"
    "winner (foldl handle initial_state
      [ChangeInput ''a'', PressEnter ''7'', ChangeInput ''b'', PressEnter ''7'',
       ClickSpin (3 / 4), TimeoutFires]) = Some ''a''"
    unfolding run added by (rule c)+
qed

text \<open>
  C10, as stated, fails. An entrant with \<open>2 ^ 53 = 9007199254740992\<close> wins who wins a
  spin keeps that number of wins, since \<open>2 ^ 53 + 1\<close> rounds to \<open>2 ^ 53\<close>. And when two
  entrants were added with the same value of \<^verbatim>\<open>Date.now()\<close>, so with the same id, and
  the first of them wins, the second gets a win as well.
\<close>

theorem C10_commit_counterexample:
  "names stateMany = [\<lparr>pid = ''1'', name = ''A'', wins = 9007199254740992\<rparr>]
   \<and> winner (spinCommit (spinWheel stateMany (3 / 4))) = Some ''A''
   \<and> names (spinCommit (spinWheel stateMany (3 / 4))) = names stateMany
   \<and> winner (foldl handle initial_state
        [ChangeInput ''a'', PressEnter ''7'', ChangeInput ''b'', PressEnter ''7'',
         ClickSpin (3 / 4), TimeoutFires]) = Some ''a''
   \<and> names (foldl handle initial_state
        [ChangeInput ''a'', PressEnter ''7'', ChangeInput ''b'', PressEnter ''7'',
         ClickSpin (3 / 4), TimeoutFires])
       = [\<lparr>pid = ''7'', name = ''a'', wins = 1\<rparr>, \<lparr>pid = ''7'', name = ''b'', wins = 1\<rparr>]"
proof -
  have n: "names stateMany = [\<lparr>pid = ''1'', name = ''A'', wins = 9007199254740992\<rparr>]"
    by (simp add: stateMany_def)
  have m: "names (spinCommit (spinWheel stateMany (3 / 4))) = names stateMany"
    unfolding n by (rule commit_stateMany)
  from n commit_stateMany(2) m commit_same_id(2) commit_same_id(1)
  show ?thesis by (intro conjI)
qed

text \<open>
  C10, amended. When the timeout of a spin fires with the winner \<open>sel\<close>, the roster keeps
  its length and its order and every entrant keeps its id and its name. Every entrant
  with the winner's id gets the binary64 sum of its wins and 1, which is exactly one
  more win when the wins are an integer below \<open>2 ^ 53\<close> in size; every entrant with
  another id is unchanged. When the ids of the roster are distinct, the new roster is
  the old one with the wins of the winner alone, at its index, replaced by that sum.
\<close>

theorem C10_commit_changes_only_winner_wins:
  assumes "timers st = sel # rest"
  shows "length (names (spinCommit st)) = length (names st)
   \<and> (\<forall>i < length (names st).
         pid (names (spinCommit st) ! i) = pid (names st ! i)
       \<and> name (names (spinCommit st) ! i) = name (names st ! i)
       \<and> (pid (names st ! i) = pid sel \<longrightarrow>
            wins (names (spinCommit st) ! i) = round64 (wins (names st ! i) + 1))
       \<and> (pid (names st ! i) = pid sel
            \<and> (\<exists>n :: int. wins (names st ! i) = of_int n \<and> \<bar>n\<bar> < 2 ^ 53) \<longrightarrow>
            wins (names (spinCommit st) ! i) = wins (names st ! i) + 1)
       \<and> (pid (names st ! i) \<noteq> pid sel \<longrightarrow> names (spinCommit st) ! i = names st ! i))
   \<and> (\<forall>i < length (names st).
         distinct (map pid (names st)) \<and> pid (names st ! i) = pid sel \<longrightarrow>
         names (spinCommit st)
           = (names st)[i := (names st ! i)\<lparr>wins := round64 (wins (names st ! i) + 1)\<rparr>])"
proof -
  have n: "names (spinCommit st) = incrementWins sel (names st)"
    using assms by (simp add: spinCommit_def)
  have a: "length (names (spinCommit st)) = length (names st)"
    by (simp add: n incrementWins_def)
  have b: "\<forall>i < length (names st).
         pid (names (spinCommit st) ! i) = pid (names st ! i)
       \<and> name (names (spinCommit st) ! i) = name (names st ! i)
       \<and> (pid (names st ! i) = pid sel \<longrightarrow>
            wins (names (spinCommit st) ! i) = round64 (wins (names st ! i) + 1))
       \<and> (pid (names st ! i) = pid sel
            \<and> (\<exists>n :: int. wins (names st ! i) = of_int n \<and> \<bar>n\<bar> < 2 ^ 53) \<longrightarrow>
            wins (names (spinCommit st) ! i) = wins (names st ! i) + 1)
       \<and> (pid (names st ! i) \<noteq> pid sel \<longrightarrow> names (spinCommit st) ! i = names st ! i)"
    by (auto simp: n incrementWins_def js_add_def round64_succ_int)
  have c: "\<forall>i < length (names st).
         distinct (map pid (names st)) \<and> pid (names st ! i) = pid sel \<longrightarrow>
         names (spinCommit st)
           = (names st)[i := (names st ! i)\<lparr>wins := round64 (wins (names st ! i) + 1)\<rparr>]"
  proof (intro allI impI)
    fix i assume i: "i < length (names st)"
      and d: "distinct (map pid (names st)) \<and> pid (names st ! i) = pid sel"
    from map_update_distinct [of pid "names st" i "\<lambda>p. p\<lparr>wins := js_add (wins p) 1\<rparr>"] d i
    show "names (spinCommit st)
        = (names st)[i := (names st ! i)\<lparr>wins := round64 (wins (names st ! i) + 1)\<rparr>]"
      by (simp add: n incrementWins_def js_add_def)
  qed
  from a b c show ?thesis by (intro conjI)
qed

text \<open>The commit of the spin of \<open>A\<close> and \<open>B\<close>: \<open>A\<close> has one win, \<open>B\<close> is as before.\<close>

theorem C10_commit_witness:
  "timers (spinWheel stateAB (3 / 4)) = [segA]
   \<and> length (names (spinCommit (spinWheel stateAB (3 / 4)))) = 2
   \<and> names (spinCommit (spinWheel stateAB (3 / 4))) = [entrantA\<lparr>wins := 1\<rparr>, entrantB]"
proof -
  let ?st = "spinWheel stateAB (3 / 4)"
  have t: "timers ?st = segA # []" by (simp add: spinWheel_stateAB stateAB_fields)
  have n: "names ?st = [entrantA, entrantB]" by (simp add: spinWheel_stateAB stateAB_fields)
  have len: "length (names (spinCommit ?st)) = length (names ?st)"
    using C10_commit_changes_only_winner_wins [OF t] by blast
  have ev: "names (spinCommit ?st) = [entrantA\<lparr>wins := 1\<rparr>, entrantB]"
    by (simp add: spinCommit_def incrementWins_def t n segA_def entrantA_def entrantB_def
        js_add_def round64_numerals)
  from len n have "length (names (spinCommit ?st)) = 2" by simp
  with t ev show ?thesis by (intro conjI) simp_all
qed

section \<open>The fallback of the scan is reached\<close>

text \<open>
  The layout of the roster with the wins 3, 3, 2, 1, 4, 4, 5 ends at \<open>360 - 2^-42\<close>.
  At rotation 0 and with \<^verbatim>\<open>Math.random()\<close> returning \<open>6 * 2^-53\<close> the tested angle is
  that number: no segment contains it, and \<^verbatim>\<open>spinWheel\<close> schedules the commit of the
  first entrant.
\<close>

lemma not_atTop_by_bounds:
  "list_all (\<lambda>s. \<not> atTop t s) segs
     = list_all (\<lambda>(a, b). \<not> (a \<le> t \<and> t < b)) (zip (map startAngle segs) (map endAngle segs))"
  by (induction segs) (simp_all add: atTop_def)

lemma weights_rosterSeven:
  "calculateWeightedSegments rosterSeven =
    [\<lparr>pid = ''1'', name = ''P1'', wins = 3, weight = 900719925474099 / 2251799813685248\<rparr>,
     \<lparr>pid = ''2'', name = ''P2'', wins = 3, weight = 900719925474099 / 2251799813685248\<rparr>,
     \<lparr>pid = ''3'', name = ''P3'', wins = 2, weight = 5404319552844595 / 9007199254740992\<rparr>,
     \<lparr>pid = ''4'', name = ''P4'', wins = 1, weight = 3602879701896397 / 4503599627370496\<rparr>,
     \<lparr>pid = ''5'', name = ''P5'', wins = 4, weight = 900719925474099 / 4503599627370496\<rparr>,
     \<lparr>pid = ''6'', name = ''P6'', wins = 4, weight = 900719925474099 / 4503599627370496\<rparr>,
     \<lparr>pid = ''7'', name = ''P7'', wins = 5, weight = 3602879701896397 / 36028797018963968\<rparr>]"
  by (simp add: calculateWeightedSegments_def addWeight_def weightOf_eq rosterSeven_def
      round64_eval)

lemma total_rosterSeven:
  "totalWeightOf (calculateWeightedSegments rosterSeven) = 6079859496950171 / 2251799813685248"
  unfolding weights_rosterSeven by (simp add: totalWeightOf_def js_add_def round64_eval)

lemma layout_steps_rosterSeven:
  "js_mul (js_div (900719925474099 / 2251799813685248) (6079859496950171 / 2251799813685248)) 360
     = 7505999378950823 / 140737488355328"
  "js_mul (js_div (5404319552844595 / 9007199254740992) (6079859496950171 / 2251799813685248)) 360
     = 2814749767106559 / 35184372088832"
  "js_mul (js_div (3602879701896397 / 4503599627370496) (6079859496950171 / 2251799813685248)) 360
     = 7505999378950825 / 70368744177664"
  "js_mul (js_div (900719925474099 / 4503599627370496) (6079859496950171 / 2251799813685248)) 360
     = 7505999378950823 / 281474976710656"
  "js_mul (js_div (3602879701896397 / 36028797018963968) (6079859496950171 / 2251799813685248)) 360
     = 7505999378950825 / 562949953421312"
  "js_add 0 (7505999378950823 / 140737488355328) = 7505999378950823 / 140737488355328"
  "js_add (7505999378950823 / 140737488355328) (7505999378950823 / 140737488355328)
     = 7505999378950823 / 70368744177664"
  "js_add (7505999378950823 / 70368744177664) (2814749767106559 / 35184372088832)
     = 3283874728290985 / 17592186044416"
  "js_add (3283874728290985 / 17592186044416) (7505999378950825 / 70368744177664)
     = 5160374573028691 / 17592186044416"
  "js_add (5160374573028691 / 17592186044416) (7505999378950823 / 281474976710656)
     = 5629499534213117 / 17592186044416"
  "js_add (5629499534213117 / 17592186044416) (7505999378950823 / 281474976710656)
     = 6098624495397543 / 17592186044416"
  "js_add (6098624495397543 / 17592186044416) (7505999378950825 / 562949953421312)
     = 1583296743997439 / 4398046511104"
  by (simp_all add: js_add_def js_mul_def js_div_def round64_eval)

lemma layout_rosterSeven:
  "map startAngle (getSegmentAngles rosterSeven)
     = [0, 7505999378950823 / 140737488355328, 7505999378950823 / 70368744177664,
        3283874728290985 / 17592186044416, 5160374573028691 / 17592186044416,
        5629499534213117 / 17592186044416, 6098624495397543 / 17592186044416]"
  "map endAngle (getSegmentAngles rosterSeven)
     = [7505999378950823 / 140737488355328, 7505999378950823 / 70368744177664,
        3283874728290985 / 17592186044416, 5160374573028691 / 17592186044416,
        5629499534213117 / 17592186044416, 6098624495397543 / 17592186044416,
        1583296743997439 / 4398046511104]"
  unfolding getSegmentAngles_def Let_def total_rosterSeven unfolding weights_rosterSeven
  by (simp_all add: Let_def layout_steps_rosterSeven)

lemma tested_angle_rosterSeven:
  "segmentTopAngle (finalRotation 0 (6 / 2 ^ 53)) = 360 - 1 / 2 ^ 42"
proof -
  have s: "randomAngle (6 / 2 ^ 53) = 2160 / 2 ^ 53"
    by (simp add: randomAngle_def js_mul_def round64_eval)
  have t: "totalRotation (6 / 2 ^ 53) = 1800 + 1 / 2 ^ 42"
    unfolding totalRotation_def js_add_def baseRotation_eq s by (simp add: round64_eval)
  have fr: "finalRotation 0 (6 / 2 ^ 53) = 1 / 2 ^ 42"
    unfolding finalRotation_def js_add_def t
    by (simp add: round64_eval js_rem_def js_trunc_def)
  show ?thesis
    unfolding fr by (simp add: segmentTopAngle_def js_sub_def round64_eval js_rem_def js_trunc_def)
qed

lemma fallback_reached_by_layout:
  "list_all (\<lambda>s. \<not> atTop (segmentTopAngle (finalRotation 0 (6 / 2 ^ 53))) s)
     (getSegmentAngles rosterSeven)"
  "timers (spinWheel stateSeven (6 / 2 ^ 53)) = [getSegmentAngles rosterSeven ! 0]"
  "pid (getSegmentAngles rosterSeven ! 0) = ''1''"
proof -
  let ?segs = "getSegmentAngles rosterSeven"
  let ?t = "segmentTopAngle (finalRotation 0 (6 / 2 ^ 53))"
  show no: "list_all (\<lambda>s. \<not> atTop ?t s) ?segs"
    unfolding not_atTop_by_bounds layout_rosterSeven tested_angle_rosterSeven by simp
  have ne: "rosterSeven \<noteq> []" by (simp add: rosterSeven_def)
  then have sne: "?segs \<noteq> []" using length_getSegmentAngles [of rosterSeven] by auto
  have "\<forall>s \<in> set ?segs. \<not> atTop ?t s" using no by (simp add: list_all_iff)
  then have "find (atTop ?t) ?segs = None" by (simp add: find_None_iff)
  then have "selectWinner ?segs (finalRotation 0 (6 / 2 ^ 53)) = Some (?segs ! 0)"
    using sne by (cases ?segs) (simp_all add: selectWinner_def scanSegments_find)
  then show "timers (spinWheel stateSeven (6 / 2 ^ 53)) = [?segs ! 0]"
    using ne by (simp add: spinWheel_def stateSeven_def)
  show "pid (?segs ! 0) = ''1''"
    using getSegmentAngles_nth [of 0 rosterSeven] by (simp add: rosterSeven_def)
qed

end
